theory Spec2Isabelle
  imports Main "HOL-Library.Word" "HOL-Library.Signed_Division" "HOL-Library.Multiset"
begin

section \<open>Error kinds\<close>

text \<open>
  \<^verbatim>\<open>video_error.cpp\<close> and \<^verbatim>\<open>stream_error.cpp\<close>: two enumerations, each with a category
  that maps a kind to its message. An error condition is a kind of either enumeration, or
  a kind of the standard library (the tests use \<^verbatim>\<open>std::errc::not_supported\<close>).
\<close>

datatype video_error =
    StreamInitializationError
  | FrameGenerationError
  | AsioError
  | EndOfStreamError
  | FrameNotReadyError

datatype stream_error = ValueWasMoved | NotInitialized

datatype error_condition =
    Video_error video_error
  | Stream_error stream_error
  | Errc_not_supported

fun video_error_message :: "video_error \<Rightarrow> string" where
  "video_error_message StreamInitializationError = ''can't initialize video stream''"
| "video_error_message FrameGenerationError = ''can't generate video frame''"
| "video_error_message AsioError = ''asio error''"
| "video_error_message EndOfStreamError = ''end of video stream''"
| "video_error_message FrameNotReadyError = ''frame not ready''"

fun stream_error_message :: "stream_error \<Rightarrow> string" where
  "stream_error_message ValueWasMoved = ''value was moved''"
| "stream_error_message NotInitialized = ''not initialized''"

section \<open>Packet data model\<close>

text \<open>
  \<^verbatim>\<open>data.h\<close>. A frame id is a pair of \<^verbatim>\<open>int64_t\<close>; they are 64-bit words here, read as
  signed by \<open><s\<close>. The fields \<^verbatim>\<open>id\<close>, \<^verbatim>\<open>data\<close> and \<^verbatim>\<open>t\<close> carry the prefix of their
  structure.
\<close>

definition max_payload_size :: nat where
  "max_payload_size = 65000"

text \<open>
  A \<^verbatim>\<open>std::chrono::system_clock::time_point\<close> is the count of the clock's ticks since its
  epoch, a signed 64-bit number of nanoseconds (as in libstdc++), whose arithmetic wraps.
\<close>

type_synonym time_point = "64 word"

record frame_id =
  i1 :: "64 word"
  i2 :: "64 word"

record network_metadata =
  nm_codec_name :: string
  nm_base64_data :: string

text \<open>
  The fields \<^verbatim>\<open>chunk\<close> and \<^verbatim>\<open>chunks\<close> are \<^verbatim>\<open>uint32_t\<close>. They count pieces of 65000
  bytes of text each, so they wrap only for a frame whose text has \<open>2^32 * 65000\<close> bytes
  or more, some 279 terabytes: they are natural numbers here, without the wrap.
\<close>

record network_frame =
  base64_data :: string
  nf_id :: frame_id
  nf_t :: time_point
  chunk :: nat
  chunks :: nat

record encoded_metadata =
  codec_name :: string
  codec_data :: string

text \<open>
  \<^verbatim>\<open>data.h\<close> declares the first two fields of an encoded frame; the file source also fills
  \<^verbatim>\<open>timestamp\<close> and \<^verbatim>\<open>key_frame\<close>, which are the extension of the record.
\<close>

record encoded_frame =
  ef_data :: string
  ef_id :: frame_id

record timed_encoded_frame = encoded_frame +
  timestamp :: time_point
  key_frame :: bool

datatype encoded_packet =
    Metadata encoded_metadata
  | Frame "timed_encoded_frame"

section \<open>Observer signals\<close>

text \<open>
  \<^verbatim>\<open>streams.h\<close>: an observer receives \<^verbatim>\<open>on_next\<close>, \<^verbatim>\<open>on_error\<close> and \<^verbatim>\<open>on_complete\<close>. A
  function that is handed an observer returns the list of the calls it made, in order.
\<close>

datatype 'a signal = On_next 'a | On_error error_condition | On_complete

fun is_terminal :: "'a signal \<Rightarrow> bool" where
  "is_terminal (On_next _) = False"
| "is_terminal (On_error _) = True"
| "is_terminal On_complete = True"

fun packets_of :: "'a signal list \<Rightarrow> 'a list" where
  "packets_of [] = []"
| "packets_of (On_next p # es) = p # packets_of es"
| "packets_of (_ # es) = packets_of es"

fun frames_of :: "encoded_packet list \<Rightarrow> timed_encoded_frame list" where
  "frames_of [] = []"
| "frames_of (Frame fr # ps) = fr # frames_of ps"
| "frames_of (Metadata _ # ps) = frames_of ps"

fun is_frame :: "encoded_packet \<Rightarrow> bool" where
  "is_frame (Frame _) = True"
| "is_frame (Metadata _) = False"

section \<open>The file source\<close>

subsection \<open>The demuxer, as the file source sees it\<close>

text \<open>
  The libav calls are outside the repository. A file is what they answer: the return code
  of each call of \<^verbatim>\<open>init\<close>, the decoder's name and extradata, the stream's time base, and
  the sequence of answers of \<^verbatim>\<open>av_read_frame\<close>, each a return code and the packet it
  filled. Past the last answer \<^verbatim>\<open>av_read_frame\<close> returns \<^verbatim>\<open>AVERROR_EOF\<close>;
  \<^verbatim>\<open>av_seek_frame\<close> to the start time puts the reader back at the first answer.
\<close>

record av_packet =
  pkt_data :: string
  pkt_pos :: "64 word"
  pkt_pts :: "64 word"
  pkt_stream_index :: int
  pkt_flags :: "32 word"

record av_file =
  open_input_ret :: int
  find_stream_info_ret :: int
  find_best_stream_ret :: int
  alloc_context_ok :: bool
  parameters_to_context_ret :: int
  open2_ret :: int
  dec_name :: string
  extradata :: string
  time_base_num :: "32 word"
  time_base_den :: "32 word"
  packets :: "(int \<times> av_packet) list"

definition AVERROR_EOF :: int where
  "AVERROR_EOF = - 541478725"

definition AV_PKT_FLAG_KEY :: "32 word" where
  "AV_PKT_FLAG_KEY = 1"

definition blank_packet :: av_packet where
  "blank_packet = \<lparr>pkt_data = [], pkt_pos = 0, pkt_pts = 0, pkt_stream_index = 0, pkt_flags = 0\<rparr>"

subsection \<open>\<^verbatim>\<open>file_source_impl\<close>\<close>

text \<open>
  The members of the structure. \<^verbatim>\<open>_fmt_ctx\<close> and \<^verbatim>\<open>_dec_ctx\<close> are pointers that are null
  or not: \<open>fmt_ctx\<close> and \<open>dec_ctx\<close> say whether they are set, and \<open>read_pos\<close> is the place
  of the open format context in the file's answers.
\<close>

record file_source_impl =
  filename :: string
  loop :: bool
  start :: time_point
  fmt_ctx :: bool
  read_pos :: nat
  stream_idx :: int
  dec_ctx :: bool
  last_pos :: "64 word"
  metadata_sent :: bool

definition new_file_source_impl ::
  "string \<Rightarrow> bool \<Rightarrow> time_point \<Rightarrow> file_source_impl" where
  "new_file_source_impl name lp now =
     \<lparr>filename = name, loop = lp, start = now, fmt_ctx = False, read_pos = 0,
      stream_idx = - 1, dec_ctx = False, last_pos = 0, metadata_sent = False\<rparr>"

definition init :: "av_file \<Rightarrow> file_source_impl \<Rightarrow> int \<times> file_source_impl" where
  "init f s =
     (if open_input_ret f < 0 then (open_input_ret f, s)
      else let s1 = s\<lparr>fmt_ctx := True, read_pos := 0\<rparr> in
        if find_stream_info_ret f < 0 then (find_stream_info_ret f, s1)
        else if find_best_stream_ret f < 0 then (find_best_stream_ret f, s1)
        else let s2 = s1\<lparr>stream_idx := find_best_stream_ret f\<rparr> in
          if \<not> alloc_context_ok f then (- 1, s2)
          else let s3 = s2\<lparr>dec_ctx := True\<rparr> in
            if parameters_to_context_ret f < 0 then (parameters_to_context_ret f, s3)
            else if open2_ret f < 0 then (open2_ret f, s3)
            else (0, s3))"

definition av_read_frame ::
  "av_file \<Rightarrow> file_source_impl \<Rightarrow> (int \<times> av_packet) \<times> file_source_impl" where
  "av_read_frame f s =
     (if read_pos s < length (packets f)
      then (packets f ! read_pos s, s\<lparr>read_pos := Suc (read_pos s)\<rparr>)
      else ((AVERROR_EOF, blank_packet), s))"

definition av_seek_frame :: "file_source_impl \<Rightarrow> file_source_impl" where
  "av_seek_frame s = s\<lparr>read_pos := 0\<rparr>"

definition send_metadata ::
  "av_file \<Rightarrow> file_source_impl \<Rightarrow> encoded_packet signal \<times> file_source_impl" where
  "send_metadata f s =
     (On_next (Metadata \<lparr>codec_name = dec_name f, codec_data = extradata f\<rparr>),
      s\<lparr>metadata_sent := True\<rparr>)"

text \<open>
  \<^verbatim>\<open>1000 * _pkt.pts * num / den\<close> is computed in \<^verbatim>\<open>int64_t\<close>: the products wrap and the
  quotient truncates towards zero. The division traps when the divisor is 0, and when the
  least \<^verbatim>\<open>int64_t\<close> is divided by \<open>-1\<close>: then there is no quotient.
\<close>

definition div64 :: "64 word \<Rightarrow> 64 word \<Rightarrow> 64 word option" where
  "div64 a b =
     (if b = 0 \<or> (a = - (2 ^ 63) \<and> b = - 1) then None
      else Some (word_of_int (sint a sdiv sint b)))"

text \<open>
  The frame that \<^verbatim>\<open>generate\<close> makes of a packet, with \<^verbatim>\<open>_start\<close> and \<^verbatim>\<open>_last_pos\<close> as they
  are at that moment; none when the division traps. The time stamp is \<^verbatim>\<open>_start\<close> plus
  \<open>ts\<close> milliseconds, in the nanoseconds of the time point.
\<close>

definition make_frame ::
  "av_file \<Rightarrow> time_point \<Rightarrow> 64 word \<Rightarrow> av_packet \<Rightarrow> timed_encoded_frame option" where
  "make_frame f st lp pkt =
     (case div64 (1000 * pkt_pts pkt * scast (time_base_num f)) (scast (time_base_den f)) of
        None \<Rightarrow> None
      | Some ts \<Rightarrow>
          Some \<lparr>ef_data = pkt_data pkt,
                ef_id = \<lparr>i1 = lp, i2 = pkt_pos pkt\<rparr>,
                timestamp = st + ts * 1000000,
                key_frame = (and (pkt_flags pkt) AV_PKT_FLAG_KEY \<noteq> 0)\<rparr>)"

text \<open>
  How a call ends: it returns, leaving the state, or the process dies in it, at a division
  that traps.
\<close>

datatype 's ending = Returned 's | Died

definition emit :: "'a \<Rightarrow> ('a list \<times> 's) option \<Rightarrow> ('a list \<times> 's) option" where
  "emit e r = map_option (\<lambda>(es, s). (e # es, s)) r"

text \<open>
  The \<^verbatim>\<open>while (packets < count)\<close> loop of \<^verbatim>\<open>generate\<close>. With \<^verbatim>\<open>_loop\<close> set and a file that
  has no packet of the chosen stream the loop never ends, so it runs on fuel: one unit for
  each pass, \<open>None\<close> when it is used up. The result has the signals that the observer
  received, those before a trap too.
\<close>

fun generate_loop ::
  "nat \<Rightarrow> av_file \<Rightarrow> int \<Rightarrow> int \<Rightarrow> file_source_impl
     \<Rightarrow> (encoded_packet signal list \<times> file_source_impl ending) option" where
  "generate_loop 0 f cnt n s = None"
| "generate_loop (Suc k) f cnt n s =
     (if \<not> n < cnt then Some ([], Returned s)
      else if \<not> metadata_sent s then
        (case send_metadata f s of
           (e, s1) \<Rightarrow> emit e (generate_loop k f cnt (n + 1) s1))
      else
        (case av_read_frame f s of
           ((ret, pkt), s1) \<Rightarrow>
             if ret < 0 then
               (if ret = AVERROR_EOF then
                  (if loop s1 then generate_loop k f cnt n (av_seek_frame s1)
                   else Some ([On_complete], Returned s1))
                else Some ([On_error (Video_error FrameGenerationError)], Returned s1))
             else if pkt_stream_index pkt = stream_idx s1 then
               (case make_frame f (start s1) (last_pos s1) pkt of
                  None \<Rightarrow> Some ([], Died)
                | Some fr \<Rightarrow>
                    emit (On_next (Frame fr))
                      (generate_loop k f cnt (n + 1) (s1\<lparr>last_pos := pkt_pos pkt + 1\<rparr>)))
             else generate_loop k f cnt n s1))"

definition generate ::
  "nat \<Rightarrow> av_file \<Rightarrow> int \<Rightarrow> file_source_impl
     \<Rightarrow> (encoded_packet signal list \<times> file_source_impl ending) option" where
  "generate fuel f cnt s =
     (if \<not> fmt_ctx s then
        (case init f s of
           (ret, s1) \<Rightarrow>
             if ret \<noteq> 0
             then Some ([On_error (Video_error StreamInitializationError)], Returned s1)
             else generate_loop fuel f cnt 0 s1)
      else generate_loop fuel f cnt 0 s)"

text \<open>
  Modelled from the spec: the engine of \<^verbatim>\<open>generators::stateful\<close> (\<^verbatim>\<open>streams_impl.h\<close> is not
  among the sources). One subscription creates the state once; each \<^verbatim>\<open>request(n)\<close> calls
  the generator with the state and \<open>n\<close>; after a terminal signal the state is destroyed and
  later requests reach nothing, and none is made of a process that died. The result has
  the signals of each request that was served.
\<close>

fun requests ::
  "nat \<Rightarrow> av_file \<Rightarrow> int list \<Rightarrow> file_source_impl \<Rightarrow> encoded_packet signal list list option" where
  "requests fuel f [] s = Some []"
| "requests fuel f (n # ns) s =
     (case generate fuel f n s of
        None \<Rightarrow> None
      | Some (es, Died) \<Rightarrow> Some [es]
      | Some (es, Returned s1) \<Rightarrow>
          if list_ex is_terminal es then Some [es]
          else map_option ((#) es) (requests fuel f ns s1))"

subsection \<open>\<^verbatim>\<open>file_source\<close>\<close>

text \<open>
  The publisher that \<^verbatim>\<open>file_source\<close> returns is the stateful generator over a new
  \<^verbatim>\<open>file_source_impl\<close>, alone or under the \<^verbatim>\<open>asio::interval\<close> operator with its period in
  milliseconds. The operator is outside the sources; the publisher records how it was
  composed.
\<close>

datatype encoded_publisher =
    Stateful string bool
  | Interval nat encoded_publisher

definition file_source :: "string \<Rightarrow> bool \<Rightarrow> bool \<Rightarrow> encoded_publisher" where
  "file_source name lp batch =
     (let result = Stateful name lp in
      if \<not> batch then
        (let fps = 25 in Interval (1000 div fps) result)
      else result)"


subsection \<open>Frame ids along a subscription\<close>

text \<open>
  \<open>chain_end lp frs\<close> follows the ids of the frames \<open>frs\<close> from the position \<open>lp\<close>: each
  frame starts where the one before ended plus one; the result is the position after the
  last frame. \<open>video_positions\<close> are the byte positions of the packets of the chosen stream
  that the file answers, and they are \<open>spaced\<close> from \<open>lp\<close> when each exceeds what precedes
  it by more than one.
\<close>

fun chain_end :: "64 word \<Rightarrow> timed_encoded_frame list \<Rightarrow> 64 word option" where
  "chain_end lp [] = Some lp"
| "chain_end lp (fr # frs) =
     (if i1 (ef_id fr) = lp then chain_end (i2 (ef_id fr) + 1) frs else None)"

fun spaced :: "64 word \<Rightarrow> 64 word list \<Rightarrow> bool" where
  "spaced lp [] = True"
| "spaced lp (p # ps) = (lp <s p \<and> spaced (p + 1) ps)"

definition video_positions :: "int \<Rightarrow> (int \<times> av_packet) list \<Rightarrow> 64 word list" where
  "video_positions idx tape =
     map (pkt_pos \<circ> snd) (filter (\<lambda>(ret, pkt). 0 \<le> ret \<and> pkt_stream_index pkt = idx) tape)"

definition one_packet_file :: "64 word \<Rightarrow> av_file" where
  "one_packet_file p =
     \<lparr>open_input_ret = 0, find_stream_info_ret = 0, find_best_stream_ret = 0,
      alloc_context_ok = True, parameters_to_context_ret = 0, open2_ret = 0,
      dec_name = ''h264'', extradata = ''x'', time_base_num = 1, time_base_den = 1000,
      packets = [(0, \<lparr>pkt_data = ''ab'', pkt_pos = p, pkt_pts = 40,
                      pkt_stream_index = 0, pkt_flags = 1\<rparr>)]\<rparr>"

subsection \<open>The frames of a file\<close>

text \<open>
  The frames that the answers \<open>tape\<close> of a file hold for a source started at \<open>st\<close>, on the
  stream \<open>idx\<close>, whose last position is \<open>lp\<close>: one for each packet of the stream, in the
  order of the answers, each starting one past the end of the frame before it; none when
  a division traps. \<open>to_come\<close> is what a source in the state \<open>s\<close> still has to give when it
  does not loop and every read succeeds: the metadata if it has not gone out, and the
  frames from the reader's place on.
\<close>

fun all_frames ::
  "av_file \<Rightarrow> time_point \<Rightarrow> int \<Rightarrow> 64 word \<Rightarrow> (int \<times> av_packet) list
     \<Rightarrow> timed_encoded_frame list option" where
  "all_frames f st idx lp [] = Some []"
| "all_frames f st idx lp ((ret, pkt) # tape) =
     (if pkt_stream_index pkt = idx then
        (case make_frame f st lp pkt of
           None \<Rightarrow> None
         | Some fr \<Rightarrow> map_option ((#) fr) (all_frames f st idx (pkt_pos pkt + 1) tape))
      else all_frames f st idx lp tape)"

definition to_come :: "av_file \<Rightarrow> file_source_impl \<Rightarrow> encoded_packet signal list option" where
  "to_come f s =
     map_option
       (\<lambda>frs. (if metadata_sent s then []
               else [On_next (Metadata \<lparr>codec_name = dec_name f, codec_data = extradata f\<rparr>)]) @
              map (\<lambda>fr. On_next (Frame fr)) frs)
       (all_frames f (start s) (find_best_stream_ret f) (last_pos s)
          (drop (read_pos s) (packets f)))"

section \<open>The stream engine\<close>

text \<open>
  Modelled from the spec: the publishers and operators of \<^verbatim>\<open>streams.h\<close> are declared in the
  sources, their bodies (\<^verbatim>\<open>streams_impl.h\<close>) are not. A subscribed publisher is a state and
  two functions. \<open>step_fn\<close> answers one unit of demand: it yields a value, or makes an
  internal move, or stops with the terminal signal; once stopped there is no state left to
  ask. \<open>cancel_fn\<close> is the downstream's \<^verbatim>\<open>cancel()\<close>. Both report the callbacks of
  \<^verbatim>\<open>do_finally\<close> they ran, each known by a label.
\<close>

type_synonym label = nat

datatype outcome = Complete | Error error_condition

datatype ('s, 'a) step =
    Yield 'a 's
  | Skip "label list" 's
  | Stop "label list" outcome

record ('s, 'a) publisher =
  state :: 's
  step_fn :: "'s \<Rightarrow> ('s, 'a) step"
  cancel_fn :: "'s \<Rightarrow> label list"


text \<open>
  Modelled from the spec: \<^verbatim>\<open>publishers::empty\<close> (body in \<^verbatim>\<open>streams_impl.h\<close>) completes at
  once.
\<close>

definition empty_pub :: "(unit, 'a) publisher" where
  "empty_pub = \<lparr>state = (), step_fn = (\<lambda>_. Stop [] Complete), cancel_fn = (\<lambda>_. [])\<rparr>"

text \<open>
  Modelled from the spec: \<^verbatim>\<open>publishers::error\<close> (body in \<^verbatim>\<open>streams_impl.h\<close>) fails at once
  with the given error condition.
\<close>

definition error_pub :: "error_condition \<Rightarrow> (unit, 'a) publisher" where
  "error_pub ec = \<lparr>state = (), step_fn = (\<lambda>_. Stop [] (Error ec)), cancel_fn = (\<lambda>_. [])\<rparr>"

text \<open>
  Modelled from the spec: \<^verbatim>\<open>publishers::of\<close> (body in \<^verbatim>\<open>streams_impl.h\<close>) gives the values in
  order as demand arrives, then completes.
\<close>

definition of_pub :: "'a list \<Rightarrow> ('a list, 'a) publisher" where
  "of_pub values =
     \<lparr>state = values,
      step_fn = (\<lambda>vs. case vs of [] \<Rightarrow> Stop [] Complete | v # rest \<Rightarrow> Yield v rest),
      cancel_fn = (\<lambda>_. [])\<rparr>"

text \<open>
  Modelled from the spec: \<^verbatim>\<open>publishers::range\<close> (body in \<^verbatim>\<open>streams_impl.h\<close>) gives the values
  from \<open>from\<close> up to \<open>to\<close>, the latter excluded, then completes.
\<close>

definition range_pub :: "int \<Rightarrow> int \<Rightarrow> (int, int) publisher" where
  "range_pub from to =
     \<lparr>state = from,
      step_fn = (\<lambda>i. if i < to then Yield i (i + 1) else Stop [] Complete),
      cancel_fn = (\<lambda>_. [])\<rparr>"

text \<open>
  Modelled from the spec: \<^verbatim>\<open>take(n)\<close> (body in \<^verbatim>\<open>streams_impl.h\<close>) forwards the first \<open>n\<close>
  values, then cancels upstream and completes; with \<open>n = 0\<close> it completes without
  subscribing to upstream.
\<close>

datatype 's taking = Not_subscribed | Taking nat 's

definition take_op :: "nat \<Rightarrow> ('s, 'a) publisher \<Rightarrow> ('s taking, 'a) publisher" where
  "take_op n src =
     \<lparr>state = (if n = 0 then Not_subscribed else Taking n (state src)),
      step_fn = (\<lambda>st. case st of
          Not_subscribed \<Rightarrow> Stop [] Complete
        | Taking k s \<Rightarrow>
            if k = 0 then Stop (cancel_fn src s) Complete
            else (case step_fn src s of
                Yield v s1 \<Rightarrow> Yield v (Taking (k - 1) s1)
              | Skip ls s1 \<Rightarrow> Skip ls (Taking k s1)
              | Stop ls t \<Rightarrow> Stop ls t)),
      cancel_fn = (\<lambda>st. case st of Not_subscribed \<Rightarrow> [] | Taking k s \<Rightarrow> cancel_fn src s)\<rparr>"

text \<open>Modelled from the spec: \<^verbatim>\<open>head()\<close> (body in \<^verbatim>\<open>streams_impl.h\<close>) is \<^verbatim>\<open>take(1)\<close>.\<close>

definition head_op :: "('s, 'a) publisher \<Rightarrow> ('s taking, 'a) publisher" where
  "head_op src = take_op 1 src"


text \<open>
  Modelled from the spec: \<^verbatim>\<open>map(f)\<close> (body in \<^verbatim>\<open>streams_impl.h\<close>) gives \<open>f x\<close> for each
  upstream value \<open>x\<close>.
\<close>

definition map_op :: "('a \<Rightarrow> 'b) \<Rightarrow> ('s, 'a) publisher \<Rightarrow> ('s, 'b) publisher" where
  "map_op f src =
     \<lparr>state = state src,
      step_fn = (\<lambda>s. case step_fn src s of
          Yield v s1 \<Rightarrow> Yield (f v) s1
        | Skip ls s1 \<Rightarrow> Skip ls s1
        | Stop ls t \<Rightarrow> Stop ls t),
      cancel_fn = cancel_fn src\<rparr>"

text \<open>
  Modelled from the spec: \<^verbatim>\<open>publishers::merge\<close> (body in \<^verbatim>\<open>streams_impl.h\<close>) subscribes to its
  publishers one after the other: the next one when the current one has completed. An
  error of any of them ends the merge. The state is the publishers still to run, the first
  of them being the current one.
\<close>

definition merge_pub :: "('s, 'a) publisher list \<Rightarrow> (('s, 'a) publisher list, 'a) publisher" where
  "merge_pub ps =
     \<lparr>state = ps,
      step_fn = (\<lambda>st. case st of
          [] \<Rightarrow> Stop [] Complete
        | p # rest \<Rightarrow>
            (case step_fn p (state p) of
               Yield v q \<Rightarrow> Yield v (p\<lparr>state := q\<rparr> # rest)
             | Skip ls q \<Rightarrow> Skip ls (p\<lparr>state := q\<rparr> # rest)
             | Stop ls Complete \<Rightarrow> Skip ls rest
             | Stop ls (Error ec) \<Rightarrow> Stop ls (Error ec))),
      cancel_fn = (\<lambda>st. case st of [] \<Rightarrow> [] | p # rest \<Rightarrow> cancel_fn p (state p))\<rparr>"

text \<open>
  Modelled from the spec: \<^verbatim>\<open>do_finally(fn)\<close> (body in \<^verbatim>\<open>streams_impl.h\<close>) runs \<open>fn\<close> when
  upstream completes, when upstream fails, and when downstream cancels.
\<close>

definition do_finally :: "label \<Rightarrow> ('s, 'a) publisher \<Rightarrow> ('s, 'a) publisher" where
  "do_finally fn src =
     \<lparr>state = state src,
      step_fn = (\<lambda>s. case step_fn src s of
          Yield v s1 \<Rightarrow> Yield v s1
        | Skip ls s1 \<Rightarrow> Skip ls s1
        | Stop ls t \<Rightarrow> Stop (ls @ [fn]) t),
      cancel_fn = (\<lambda>s. cancel_fn src s @ [fn])\<rparr>"

text \<open>
  Modelled from the spec: \<^verbatim>\<open>flat_map(f)\<close> (body in \<^verbatim>\<open>streams_impl.h\<close>). Without a current
  inner publisher it asks upstream for the next value \<open>x\<close> and subscribes to \<open>f x\<close>; with
  one it forwards the inner values until the inner completes. An inner error ends the whole
  pipeline. It completes when the outer completes and no inner is left.
\<close>

definition flat_map ::
  "('a \<Rightarrow> ('t, 'b) publisher) \<Rightarrow> ('s, 'a) publisher
     \<Rightarrow> ('s \<times> ('t, 'b) publisher option, 'b) publisher" where
  "flat_map f src =
     \<lparr>state = (state src, None),
      step_fn = (\<lambda>(s, inner). case inner of
          None \<Rightarrow>
            (case step_fn src s of
               Yield x s1 \<Rightarrow> Skip [] (s1, Some (f x))
             | Skip ls s1 \<Rightarrow> Skip ls (s1, None)
             | Stop ls t \<Rightarrow> Stop ls t)
        | Some p \<Rightarrow>
            (case step_fn p (state p) of
               Yield v q \<Rightarrow> Yield v (s, Some (p\<lparr>state := q\<rparr>))
             | Skip ls q \<Rightarrow> Skip ls (s, Some (p\<lparr>state := q\<rparr>))
             | Stop ls Complete \<Rightarrow> Skip ls (s, None)
             | Stop ls (Error ec) \<Rightarrow> Stop (ls @ cancel_fn src s) (Error ec))),
      cancel_fn = (\<lambda>(s, inner).
          (case inner of None \<Rightarrow> [] | Some p \<Rightarrow> cancel_fn p (state p)) @ cancel_fn src s)\<rparr>"

text \<open>
  What a run shows: the signals the subscriber received and the callbacks that ran, in
  order.
\<close>

datatype 'a observed = Seen "'a signal" | Ran label

fun signal_of :: "outcome \<Rightarrow> 'a signal" where
  "signal_of Complete = On_complete"
| "signal_of (Error ec) = On_error ec"

text \<open>
  Modelled from the spec: \<^verbatim>\<open>process\<close> (body in \<^verbatim>\<open>streams_impl.h\<close>) installs a subscriber
  that requests one value at a time until the terminal signal. A publisher need not end,
  so the run has fuel, one unit for each step.
\<close>

fun process_from :: "nat \<Rightarrow> ('s, 'a) publisher \<Rightarrow> 's \<Rightarrow> 'a observed list option" where
  "process_from 0 p s = None"
| "process_from (Suc n) p s =
     (case step_fn p s of
        Yield v s1 \<Rightarrow> map_option ((#) (Seen (On_next v))) (process_from n p s1)
      | Skip ls s1 \<Rightarrow> map_option ((@) (map Ran ls)) (process_from n p s1)
      | Stop ls t \<Rightarrow> Some (map Ran ls @ [Seen (signal_of t)]))"

definition process :: "nat \<Rightarrow> ('s, 'a) publisher \<Rightarrow> 'a observed list option" where
  "process n p = process_from n p (state p)"

text \<open>
  Any downstream, seen from a publisher: it asks for some number of steps, and if no
  terminal signal has come by then, it cancels.
\<close>

fun request_then_cancel_from :: "nat \<Rightarrow> ('s, 'a) publisher \<Rightarrow> 's \<Rightarrow> 'a observed list" where
  "request_then_cancel_from 0 p s = map Ran (cancel_fn p s)"
| "request_then_cancel_from (Suc n) p s =
     (case step_fn p s of
        Yield v s1 \<Rightarrow> Seen (On_next v) # request_then_cancel_from n p s1
      | Skip ls s1 \<Rightarrow> map Ran ls @ request_then_cancel_from n p s1
      | Stop ls t \<Rightarrow> map Ran ls @ [Seen (signal_of t)])"

definition request_then_cancel :: "nat \<Rightarrow> ('s, 'a) publisher \<Rightarrow> 'a observed list" where
  "request_then_cancel n p = request_then_cancel_from n p (state p)"

text \<open>
  A publisher \<open>emits\<close> a run that \<^verbatim>\<open>process\<close> shows with enough fuel, and \<open>yields\<close> the
  values of a run that shows them, no callback, and the completion.
\<close>

definition emits :: "('s, 'a) publisher \<Rightarrow> 'a observed list \<Rightarrow> bool" where
  "emits p tr \<longleftrightarrow> (\<exists>n. process n p = Some tr)"

definition yields :: "('s, 'a) publisher \<Rightarrow> 'a list \<Rightarrow> bool" where
  "yields p vs \<longleftrightarrow> (\<exists>n. process n p = Some (map (\<lambda>v. Seen (On_next v)) vs @ [Seen On_complete]))"

text \<open>
  A probe on a publisher: \<open>probe l src\<close> is \<open>src\<close>, except that it reports the label \<open>l\<close>
  each time its downstream asks it for a value, before it turns to \<open>src\<close>. The first
  component of its state says whether the value asked for is still to come.
\<close>

definition probe :: "label \<Rightarrow> ('s, 'a) publisher \<Rightarrow> (bool \<times> 's, 'a) publisher" where
  "probe l src =
     \<lparr>state = (False, state src),
      step_fn = (\<lambda>(asked, s).
          if \<not> asked then Skip [l] (True, s)
          else (case step_fn src s of
              Yield v s1 \<Rightarrow> Yield v (False, s1)
            | Skip ls s1 \<Rightarrow> Skip ls (True, s1)
            | Stop ls t \<Rightarrow> Stop ls t)),
      cancel_fn = (\<lambda>(asked, s). cancel_fn src s)\<rparr>"




section \<open>The deferred value\<close>

text \<open>
  Modelled from the spec: \<^verbatim>\<open>error_or.h\<close> and \<^verbatim>\<open>deferred.h\<close> are not among the sources; the
  test \<^verbatim>\<open>error_or_move_test\<close> and the kinds of \<^verbatim>\<open>stream_error\<close> are. The holder has a value or
  an error condition. It starts not initialized, is written once, and gives its value away
  once.
\<close>

datatype 'a error_or = Holds 'a | Not_ok error_condition

text \<open>Modelled from the spec: a holder before its resolution (\<^verbatim>\<open>error_or.h\<close>).\<close>

definition unresolved :: "'a error_or" where
  "unresolved = Not_ok (Stream_error NotInitialized)"

text \<open>Modelled from the spec: \<^verbatim>\<open>ok()\<close> of \<^verbatim>\<open>error_or.h\<close>, whether the holder has a value.\<close>

definition ok :: "'a error_or \<Rightarrow> bool" where
  "ok h = (case h of Holds _ \<Rightarrow> True | Not_ok _ \<Rightarrow> False)"

text \<open>
  Modelled from the spec: the resolution of the deferred value (\<^verbatim>\<open>deferred.h\<close>); it is
  write-once, so it takes effect on a holder that is not initialized only.
\<close>

definition resolve :: "'a error_or \<Rightarrow> 'a \<Rightarrow> 'a error_or" where
  "resolve h v =
     (case h of Not_ok (Stream_error NotInitialized) \<Rightarrow> Holds v | _ \<Rightarrow> h)"

text \<open>
  Modelled from the spec: a query of the holder (\<^verbatim>\<open>error_or.h\<close>), which fails with the
  holder's error condition when there is no value.
\<close>

definition get_value :: "'a error_or \<Rightarrow> error_condition + 'a" where
  "get_value h = (case h of Holds v \<Rightarrow> Inr v | Not_ok ec \<Rightarrow> Inl ec)"

text \<open>
  Modelled from the spec: \<^verbatim>\<open>move()\<close> of \<^verbatim>\<open>error_or.h\<close> gives the value away and leaves the
  holder with the kind \<^verbatim>\<open>ValueWasMoved\<close>; without a value it fails with the holder's error
  condition.
\<close>

definition move :: "'a error_or \<Rightarrow> (error_condition + 'a) \<times> 'a error_or" where
  "move h =
     (case h of
        Holds v \<Rightarrow> (Inr v, Not_ok (Stream_error ValueWasMoved))
      | Not_ok ec \<Rightarrow> (Inl ec, h))"


section \<open>Network frames\<close>

subsection \<open>Base64\<close>

text \<open>
  Modelled from the spec: the base64 coder the packets use (\<^verbatim>\<open>base64.h\<close>) is not among the
  sources. This is the standard alphabet with \<open>=\<close> padding: three bytes become four
  characters of six bits each.
\<close>

definition b64_char :: "nat \<Rightarrow> char" where
  "b64_char n =
     (if n < 26 then char_of (65 + n)
      else if n < 52 then char_of (71 + n)
      else if n < 62 then char_of (n - 4)
      else if n = 62 then CHR ''+''
      else CHR ''/'')"

text \<open>Modelled from the spec: the six bits that a character of \<^verbatim>\<open>base64.h\<close> stands for.\<close>

definition b64_value :: "char \<Rightarrow> nat" where
  "b64_value c =
     (let k = of_char c :: nat in
      if 65 \<le> k \<and> k \<le> 90 then k - 65
      else if 97 \<le> k \<and> k \<le> 122 then k - 71
      else if 48 \<le> k \<and> k \<le> 57 then k + 4
      else if k = 43 then 62
      else 63)"

text \<open>
  Modelled from the spec: the encoder of \<^verbatim>\<open>base64.h\<close>, three bytes at a time, the last
  group padded.
\<close>

fun encode64 :: "string \<Rightarrow> string" where
  "encode64 [] = []"
| "encode64 [a] =
     (let x = of_char a :: nat in
      [b64_char (x div 4), b64_char (x mod 4 * 16), CHR ''='', CHR ''=''])"
| "encode64 [a, b] =
     (let x = of_char a :: nat; y = of_char b :: nat in
      [b64_char (x div 4), b64_char (x mod 4 * 16 + y div 16), b64_char (y mod 16 * 4),
       CHR ''=''])"
| "encode64 (a # b # c # rest) =
     (let x = of_char a :: nat; y = of_char b :: nat; z = of_char c :: nat in
      b64_char (x div 4) # b64_char (x mod 4 * 16 + y div 16) #
      b64_char (y mod 16 * 4 + z div 64) # b64_char (z mod 64) # encode64 rest)"

text \<open>
  Modelled from the spec: the decoder of \<^verbatim>\<open>base64.h\<close>, four characters at a time, up to
  the padding.
\<close>

fun decode64 :: "string \<Rightarrow> string" where
  "decode64 (p # q # r # s # rest) =
     (let a = b64_value p; b = b64_value q; c = b64_value r; d = b64_value s in
      if r = CHR ''='' then [char_of (a * 4 + b div 16)]
      else if s = CHR ''='' then [char_of (a * 4 + b div 16), char_of (b mod 16 * 16 + c div 4)]
      else char_of (a * 4 + b div 16) # char_of (b mod 16 * 16 + c div 4) #
           char_of (c mod 4 * 64 + d) # decode64 rest)"
| "decode64 _ = []"

subsection \<open>\<^verbatim>\<open>encoded_frame::to_network\<close>\<close>

text \<open>
  Modelled from the spec: the split of \<^verbatim>\<open>to_network\<close>, whose body is not among the sources.
  A text is one fragment when it fits the payload cap and is cut into pieces of the cap's
  size otherwise.
\<close>

fun chunks_of :: "nat \<Rightarrow> string \<Rightarrow> string list" where
  "chunks_of cap txt =
     (if cap = 0 \<or> length txt \<le> cap then [txt]
      else take cap txt # chunks_of cap (drop cap txt))"

declare chunks_of.simps [simp del]

text \<open>
  Modelled from the spec: \<^verbatim>\<open>data.h\<close> declares \<^verbatim>\<open>to_network\<close> and \<^verbatim>\<open>max_payload_size\<close>, the
  body is not among the sources. The base64 text of the frame is split under the cap; the
  fragments are numbered from 1, and each carries their number, the frame's id and the
  time. The cap is a parameter here and \<^verbatim>\<open>max_payload_size\<close> in \<open>to_network\<close>.
\<close>

definition to_network_capped ::
  "nat \<Rightarrow> 'z encoded_frame_scheme \<Rightarrow> time_point \<Rightarrow> network_frame list" where
  "to_network_capped cap f t =
     (let parts = chunks_of cap (encode64 (ef_data f)) in
      map (\<lambda>(i, part). \<lparr>base64_data = part, nf_id = ef_id f, nf_t = t,
                         chunk = Suc i, chunks = length parts\<rparr>)
        (enumerate 0 parts))"

text \<open>Modelled from the spec: \<^verbatim>\<open>encoded_frame::to_network\<close>, with the cap of \<^verbatim>\<open>data.h\<close>.\<close>

definition to_network :: "'z encoded_frame_scheme \<Rightarrow> time_point \<Rightarrow> network_frame list" where
  "to_network f t = to_network_capped max_payload_size f t"

subsection \<open>Reassembly\<close>

text \<open>
  Modelled from the spec: one network frame arriving at the decoder of
  \<^verbatim>\<open>decode_network_stream\<close>, which \<^verbatim>\<open>video_streams.h\<close> declares and whose body is not among
  the sources. The decoder buffers the fragments by frame id; when as many have arrived as
  the frame has, it concatenates them by ascending \<open>chunk\<close>, decodes the base64 text and
  emits one encoded frame.
\<close>

definition feed ::
  "(frame_id \<Rightarrow> network_frame list) \<Rightarrow> network_frame
     \<Rightarrow> encoded_frame list \<times> (frame_id \<Rightarrow> network_frame list)" where
  "feed buf nf =
     (let got = nf # buf (nf_id nf) in
      if length got = chunks nf
      then ([\<lparr>ef_data = decode64 (concat (map base64_data (sort_key chunk got))),
              ef_id = nf_id nf\<rparr>],
            buf(nf_id nf := []))
      else ([], buf(nf_id nf := got)))"

text \<open>
  Modelled from the spec: the decoder of \<^verbatim>\<open>decode_network_stream\<close> along the frames that
  arrive, from a given buffer.
\<close>

fun decode_frames ::
  "(frame_id \<Rightarrow> network_frame list) \<Rightarrow> network_frame list \<Rightarrow> encoded_frame list" where
  "decode_frames buf [] = []"
| "decode_frames buf (nf # rest) =
     (case feed buf nf of (out, buf1) \<Rightarrow> out @ decode_frames buf1 rest)"

text \<open>
  Modelled from the spec: \<^verbatim>\<open>decode_network_stream\<close> on the frames of a stream, from the
  empty buffer.
\<close>

definition decode_network_stream :: "network_frame list \<Rightarrow> encoded_frame list" where
  "decode_network_stream nfs = decode_frames (\<lambda>_. []) nfs"

section \<open>The signals of the bot runtime\<close>


















section \<open>Predicates of the statements\<close>

text \<open>
  The packets of a subscription, given whether the metadata went out before them: frames
  only if it did, and otherwise nothing or the metadata followed by frames only.
\<close>

definition metadata_first :: "av_file \<Rightarrow> bool \<Rightarrow> encoded_packet list \<Rightarrow> bool" where
  "metadata_first f sent ps \<longleftrightarrow>
     (if sent then list_all is_frame ps
      else ps = [] \<or>
        (\<exists>rest. ps = Metadata \<lparr>codec_name = dec_name f, codec_data = extradata f\<rparr> # rest \<and>
           list_all is_frame rest))"

definition ordered_ids :: "encoded_packet signal list \<Rightarrow> bool" where
  "ordered_ids es \<longleftrightarrow> (\<forall>fr \<in> set (frames_of (packets_of es)). i1 (ef_id fr) <s i2 (ef_id fr))"

definition well_spaced :: "av_file \<Rightarrow> file_source_impl \<Rightarrow> bool" where
  "well_spaced f s \<longleftrightarrow>
     spaced (last_pos s) (video_positions (stream_idx s) (drop (read_pos s) (packets f)))"

definition spaced_source :: "av_file \<Rightarrow> file_source_impl \<Rightarrow> bool" where
  "spaced_source f s \<longleftrightarrow> \<not> loop s \<and>
     (if fmt_ctx s then stream_idx s = find_best_stream_ret f \<and> well_spaced f s
      else spaced (last_pos s) (video_positions (find_best_stream_ret f) (packets f)))"

text \<open>
  A source is \<open>readable\<close> when it does not loop and is open on the chosen stream, or will
  open without error.
\<close>

definition readable :: "av_file \<Rightarrow> file_source_impl \<Rightarrow> bool" where
  "readable f s \<longleftrightarrow> \<not> loop s \<and>
     (if fmt_ctx s then stream_idx s = find_best_stream_ret f
      else fst (init f s) = 0 \<and> read_pos s = 0)"

section \<open>Properties of the file source\<close>

lemma emit_Some:
  "emit e r = Some (es, a) \<longleftrightarrow> (\<exists>es0. r = Some (es0, a) \<and> es = e # es0)"
  by (cases r) (auto simp: emit_def)

lemma make_frame_Some:
  "make_frame f st lp pkt = Some fr \<Longrightarrow>
     ef_data fr = pkt_data pkt \<and> ef_id fr = \<lparr>i1 = lp, i2 = pkt_pos pkt\<rparr>"
  by (auto simp: make_frame_def split: option.splits)

lemma packets_of_append: "packets_of (xs @ ys) = packets_of xs @ packets_of ys"
  by (induction xs rule: packets_of.induct) auto

lemma frames_of_append: "frames_of (xs @ ys) = frames_of xs @ frames_of ys"
  by (induction xs rule: frames_of.induct) auto

lemma init_fields:
  "init f s = (ret, s1) \<Longrightarrow>
     last_pos s1 = last_pos s \<and> metadata_sent s1 = metadata_sent s \<and> loop s1 = loop s \<and>
     start s1 = start s \<and>
     (ret = 0 \<longrightarrow> fmt_ctx s1 \<and> read_pos s1 = 0 \<and> stream_idx s1 = find_best_stream_ret f)"
  by (auto simp: init_def Let_def split: if_splits)

text \<open>
  One pass of the loop that has a packet to give and the metadata behind it: what the
  call returns, by what the reader answers.
\<close>

lemma generate_loop_read:
  assumes "n < cnt" and "metadata_sent s"
  shows "generate_loop (Suc k) f cnt n s =
     (if read_pos s < length (packets f) then
        (let ret = fst (packets f ! read_pos s); pkt = snd (packets f ! read_pos s);
             s1 = s\<lparr>read_pos := Suc (read_pos s)\<rparr> in
         if ret < 0 then
           (if ret = AVERROR_EOF then
              (if loop s then generate_loop k f cnt n (av_seek_frame s1)
               else Some ([On_complete], Returned s1))
            else Some ([On_error (Video_error FrameGenerationError)], Returned s1))
         else if pkt_stream_index pkt = stream_idx s then
           (case make_frame f (start s) (last_pos s) pkt of
              None \<Rightarrow> Some ([], Died)
            | Some fr \<Rightarrow>
                emit (On_next (Frame fr))
                  (generate_loop k f cnt (n + 1) (s1\<lparr>last_pos := pkt_pos pkt + 1\<rparr>)))
         else generate_loop k f cnt n s1)
      else if loop s then generate_loop k f cnt n (av_seek_frame s)
      else Some ([On_complete], Returned s))"
  using assms
  by (cases "packets f ! read_pos s") (simp add: av_read_frame_def AVERROR_EOF_def)

subsection \<open>Metadata comes first, once\<close>

lemma generate_loop_shape:
  "generate_loop k f cnt n s = Some (es, a) \<Longrightarrow>
     metadata_first f (metadata_sent s) (packets_of es) \<and>
     (\<forall>s'. a = Returned s' \<longrightarrow> (metadata_sent s' \<longleftrightarrow> metadata_sent s \<or> packets_of es \<noteq> []))"
proof (induction k arbitrary: n s es a)
  case 0
  then show ?case by simp
next
  case (Suc k)
  show ?case
  proof (cases "n < cnt")
    case False
    with Suc.prems show ?thesis by (auto simp: metadata_first_def)
  next
    case True
    note lt = this
    show ?thesis
    proof (cases "metadata_sent s")
      case False
      with lt Suc.prems obtain es0 where
        r: "generate_loop k f cnt (n + 1) (s\<lparr>metadata_sent := True\<rparr>) = Some (es0, a)"
        and es: "es = On_next (Metadata \<lparr>codec_name = dec_name f, codec_data = extradata f\<rparr>) # es0"
        by (auto simp: send_metadata_def emit_Some)
      from Suc.IH [OF r] es False show ?thesis by (simp add: metadata_first_def)
    next
      case True
      from Suc.prems have "generate_loop (Suc k) f cnt n s = Some (es, a)" .
      with Suc.IH True show ?thesis
        unfolding generate_loop_read [OF lt True]
        by (auto simp: metadata_first_def av_seek_frame_def emit_Some Let_def
              split: if_splits option.splits)
    qed
  qed
qed

lemma generate_shape:
  assumes "generate k f cnt s = Some (es, a)"
  shows "metadata_first f (metadata_sent s) (packets_of es) \<and>
     (\<forall>s'. a = Returned s' \<longrightarrow> (metadata_sent s' \<longleftrightarrow> metadata_sent s \<or> packets_of es \<noteq> []))"
proof (cases "fmt_ctx s")
  case True
  with assms generate_loop_shape show ?thesis by (simp add: generate_def)
next
  case False
  obtain ret s1 where i: "init f s = (ret, s1)" by (cases "init f s")
  note fl = init_fields [OF i]
  show ?thesis
  proof (cases "ret = 0")
    case True
    with assms False i have "generate_loop k f cnt 0 s1 = Some (es, a)"
      by (simp add: generate_def)
    from generate_loop_shape [OF this] fl show ?thesis by simp
  next
    case False
    with assms \<open>\<not> fmt_ctx s\<close> i fl show ?thesis
      by (auto simp: generate_def metadata_first_def)
  qed
qed

lemma metadata_first_append:
  "metadata_first f sent ps \<Longrightarrow> metadata_first f (sent \<or> ps \<noteq> []) qs \<Longrightarrow>
     metadata_first f sent (ps @ qs)"
  by (auto simp: metadata_first_def split: if_splits)

text \<open>What one request of a subscription gives, and how the later ones follow it.\<close>

lemma requests_Cons:
  assumes "requests k f (n # ns) s = Some bs"
  obtains es where "generate k f n s = Some (es, Died)" and "bs = [es]"
  | es s1 where "generate k f n s = Some (es, Returned s1)" and "list_ex is_terminal es"
      and "bs = [es]"
  | es s1 bs1 where "generate k f n s = Some (es, Returned s1)" and "\<not> list_ex is_terminal es"
      and "requests k f ns s1 = Some bs1" and "bs = es # bs1"
proof -
  from assms obtain es a where g: "generate k f n s = Some (es, a)"
    by (auto split: option.splits)
  show ?thesis
  proof (cases a)
    case Died
    with assms g that(1) show ?thesis by simp
  next
    case (Returned s1)
    with assms g that(2,3) show ?thesis
      by (cases "list_ex is_terminal es") auto
  qed
qed

lemma requests_shape:
  "requests k f ns s = Some bs \<Longrightarrow> metadata_first f (metadata_sent s) (packets_of (concat bs))"
proof (induction ns arbitrary: s bs)
  case Nil
  then show ?case by (simp add: metadata_first_def)
next
  case (Cons n ns)
  from Cons.prems show ?case
  proof (cases rule: requests_Cons)
    case (1 es)
    from generate_shape [OF 1(1)] 1(2) show ?thesis by simp
  next
    case (2 es s1)
    from generate_shape [OF 2(1)] 2(3) show ?thesis by simp
  next
    case (3 es s1 bs1)
    note sh = generate_shape [OF 3(1)]
    from Cons.IH [OF 3(3)] sh have "metadata_first f (metadata_sent s \<or> packets_of es \<noteq> [])
        (packets_of (concat bs1))"
      by simp
    with sh 3(4) show ?thesis
      by (simp add: packets_of_append metadata_first_append)
  qed
qed

lemma generate_loop_demand:
  "generate_loop k f cnt n s = Some (es, a) \<Longrightarrow>
     int (length (packets_of es)) \<le> max 0 (cnt - n)"
proof (induction k arbitrary: n s es a)
  case 0
  then show ?case by simp
next
  case (Suc k)
  show ?case
  proof (cases "n < cnt")
    case False
    with Suc.prems show ?thesis by auto
  next
    case True
    note lt = this
    show ?thesis
    proof (cases "metadata_sent s")
      case False
      with lt Suc.prems Suc.IH show ?thesis
        by (fastforce simp: send_metadata_def emit_Some)
    next
      case True
      from Suc.prems have "generate_loop (Suc k) f cnt n s = Some (es, a)" .
      with Suc.IH lt show ?thesis
        unfolding generate_loop_read [OF lt True]
        by (fastforce simp: av_seek_frame_def emit_Some Let_def split: if_splits option.splits)
    qed
  qed
qed

lemma generate_demand:
  "generate k f cnt s = Some (es, a) \<Longrightarrow> int (length (packets_of es)) \<le> max 0 cnt"
  by (auto simp: generate_def split: if_splits prod.splits dest: generate_loop_demand)

lemma requests_demand:
  "requests k f ns s = Some bs \<Longrightarrow>
     length bs \<le> length ns \<and>
     (\<forall>j < length bs. int (length (packets_of (bs ! j))) \<le> max 0 (ns ! j))"
proof (induction ns arbitrary: s bs)
  case Nil
  then show ?case by simp
next
  case (Cons n ns)
  from Cons.prems show ?case
  proof (cases rule: requests_Cons)
    case (1 es)
    from generate_demand [OF 1(1)] 1(2) show ?thesis by simp
  next
    case (2 es s1)
    from generate_demand [OF 2(1)] 2(3) show ?thesis by simp
  next
    case (3 es s1 bs1)
    from Cons.IH [OF 3(3)] generate_demand [OF 3(1)] 3(4) show ?thesis
      by (auto simp: nth_Cons split: nat.splits)
  qed
qed

text \<open>
  C10. In one subscription to the file source, whatever is requested: if any packet is
  emitted, the first is the metadata with the decoder's name and extradata, and every
  packet after it is a frame, so the metadata is emitted once and before any frame. The
  packets of each request, the metadata among them, are no more than the request asked for.
\<close>

theorem file_source_metadata_first:
  assumes "requests fuel f ns (new_file_source_impl name lp now) = Some bs"
  shows "(packets_of (concat bs) = [] \<or>
          (\<exists>rest. packets_of (concat bs) =
               Metadata \<lparr>codec_name = dec_name f, codec_data = extradata f\<rparr> # rest \<and>
             list_all is_frame rest)) \<and>
         length bs \<le> length ns \<and>
         (\<forall>j < length bs. int (length (packets_of (bs ! j))) \<le> max 0 (ns ! j))"
  using requests_shape [OF assms] requests_demand [OF assms]
  by (simp add: metadata_first_def new_file_source_impl_def)

lemma make_frame_millis:
  "time_base_num f = 1 \<Longrightarrow> time_base_den f = 1000 \<Longrightarrow>
     make_frame f st lp pkt =
       Some \<lparr>ef_data = pkt_data pkt, ef_id = \<lparr>i1 = lp, i2 = pkt_pos pkt\<rparr>,
             timestamp = st + word_of_int (sint (1000 * pkt_pts pkt) sdiv 1000) * 1000000,
             key_frame = (and (pkt_flags pkt) AV_PKT_FLAG_KEY \<noteq> 0)\<rparr>"
  by (simp add: make_frame_def div64_def)

lemma make_frame_zero_denominator: "time_base_den f = 0 \<Longrightarrow> make_frame f st lp pkt = None"
  by (simp add: make_frame_def div64_def)

lemmas file_source_eval =
  one_packet_file_def new_file_source_impl_def generate_def init_def eval_nat_numeral
  send_metadata_def emit_def av_read_frame_def av_seek_frame_def make_frame_millis
  make_frame_zero_denominator AVERROR_EOF_def AV_PKT_FLAG_KEY_def

lemma one_packet_run:
  "requests 6 (one_packet_file 10) [1, 3] (new_file_source_impl ''a'' False 0) =
     Some [[On_next (Metadata \<lparr>codec_name = ''h264'', codec_data = ''x''\<rparr>)],
           [On_next (Frame \<lparr>ef_data = ''ab'', ef_id = \<lparr>i1 = 0, i2 = 10\<rparr>,
                            timestamp = 40000000, key_frame = True\<rparr>),
            On_complete]]"
  by (simp add: file_source_eval)

theorem file_source_metadata_first_witness:
  "requests 6 (one_packet_file 10) [1, 3] (new_file_source_impl ''a'' False 0) =
     Some [[On_next (Metadata \<lparr>codec_name = ''h264'', codec_data = ''x''\<rparr>)],
           [On_next (Frame \<lparr>ef_data = ''ab'', ef_id = \<lparr>i1 = 0, i2 = 10\<rparr>,
                            timestamp = 40000000, key_frame = True\<rparr>),
            On_complete]] \<and>
   (\<exists>rest. [Metadata \<lparr>codec_name = ''h264'', codec_data = ''x''\<rparr>,
            Frame \<lparr>ef_data = ''ab'', ef_id = \<lparr>i1 = 0, i2 = 10\<rparr>,
                   timestamp = 40000000, key_frame = True\<rparr>] =
      Metadata \<lparr>codec_name = dec_name (one_packet_file 10),
                codec_data = extradata (one_packet_file 10)\<rparr> # rest \<and>
      list_all is_frame rest)"
  using file_source_metadata_first [OF one_packet_run] one_packet_run
  by (simp add: one_packet_file_def)

text \<open>
  A time base with the denominator 0: the process dies at the first frame, after the
  metadata, and the subscription has no further signal.
\<close>

lemma zero_denominator_dies:
  "requests 6 ((one_packet_file 10)\<lparr>time_base_den := 0\<rparr>) [1, 1, 1]
       (new_file_source_impl ''a'' False 0) =
     Some [[On_next (Metadata \<lparr>codec_name = ''h264'', codec_data = ''x''\<rparr>)], []]"
  by (simp add: file_source_eval)

subsection \<open>Frame ids\<close>

lemma chain_end_append:
  "chain_end lp (xs @ ys) = (case chain_end lp xs of None \<Rightarrow> None | Some m \<Rightarrow> chain_end m ys)"
  by (induction xs arbitrary: lp) auto

lemma chain_end_successive:
  "chain_end lp frs = Some e \<Longrightarrow> Suc k < length frs \<Longrightarrow>
     i1 (ef_id (frs ! Suc k)) = i2 (ef_id (frs ! k)) + 1"
proof (induction frs arbitrary: lp k)
  case Nil
  then show ?case by simp
next
  case (Cons fr frs)
  from Cons.prems have ce: "chain_end (i2 (ef_id fr) + 1) frs = Some e"
    by (simp split: if_splits)
  show ?case
  proof (cases k)
    case 0
    with Cons.prems ce show ?thesis by (cases frs) (auto split: if_splits)
  next
    case (Suc j)
    with Cons.prems Cons.IH [OF ce, of j] show ?thesis by simp
  qed
qed

lemma chain_end_hd: "chain_end lp frs = Some e \<Longrightarrow> frs \<noteq> [] \<Longrightarrow> i1 (ef_id (hd frs)) = lp"
  by (cases frs) (auto split: if_splits)

lemma generate_loop_chain:
  "generate_loop k f cnt n s = Some (es, a) \<Longrightarrow>
     \<exists>e. chain_end (last_pos s) (frames_of (packets_of es)) = Some e \<and>
       (\<forall>s'. a = Returned s' \<longrightarrow> last_pos s' = e)"
proof (induction k arbitrary: n s es a)
  case 0
  then show ?case by simp
next
  case (Suc k)
  show ?case
  proof (cases "n < cnt")
    case False
    with Suc.prems show ?thesis by auto
  next
    case True
    note lt = this
    show ?thesis
    proof (cases "metadata_sent s")
      case False
      with lt Suc.prems obtain es0 where
        r: "generate_loop k f cnt (n + 1) (s\<lparr>metadata_sent := True\<rparr>) = Some (es0, a)"
        and es: "es = On_next (Metadata \<lparr>codec_name = dec_name f, codec_data = extradata f\<rparr>) # es0"
        by (auto simp: send_metadata_def emit_Some)
      from Suc.IH [OF r] es show ?thesis by simp
    next
      case True
      note ms = this
      show ?thesis
      proof (cases "read_pos s < length (packets f)")
        case False
        with Suc.prems Suc.IH [of n "av_seek_frame s" es a] show ?thesis
          unfolding generate_loop_read [OF lt ms]
          by (auto simp: av_seek_frame_def split: if_splits)
      next
        case True
        note inr = this
        obtain ret pkt where item: "packets f ! read_pos s = (ret, pkt)"
          by (cases "packets f ! read_pos s")
        let ?s1 = "s\<lparr>read_pos := Suc (read_pos s)\<rparr>"
        let ?s2 = "?s1\<lparr>last_pos := pkt_pos pkt + 1\<rparr>"
        from Suc.prems have g: "generate_loop (Suc k) f cnt n s = Some (es, a)" .
        show ?thesis
        proof (cases "ret < 0")
          case True
          with g inr item Suc.IH [of n "av_seek_frame ?s1" es a] show ?thesis
            unfolding generate_loop_read [OF lt ms]
            by (auto simp: av_seek_frame_def Let_def split: if_splits)
        next
          case False
          note ok = this
          show ?thesis
          proof (cases "pkt_stream_index pkt = stream_idx s")
            case False
            with ok g inr item have "generate_loop k f cnt n ?s1 = Some (es, a)"
              unfolding generate_loop_read [OF lt ms] by simp
            from Suc.IH [OF this] show ?thesis by simp
          next
            case True
            note vid = this
            show ?thesis
            proof (cases "make_frame f (start s) (last_pos s) pkt")
              case None
              with vid ok g inr item show ?thesis
                unfolding generate_loop_read [OF lt ms] by auto
            next
              case (Some fr)
              with vid ok g inr item obtain es0 where
                r: "generate_loop k f cnt (n + 1) ?s2 = Some (es0, a)"
                and es: "es = On_next (Frame fr) # es0"
                unfolding generate_loop_read [OF lt ms] by (auto simp: emit_Some)
              from Suc.IH [OF r] es make_frame_Some [OF Some] show ?thesis by simp
            qed
          qed
        qed
      qed
    qed
  qed
qed

lemma generate_chain:
  "generate k f cnt s = Some (es, a) \<Longrightarrow>
     \<exists>e. chain_end (last_pos s) (frames_of (packets_of es)) = Some e \<and>
       (\<forall>s'. a = Returned s' \<longrightarrow> last_pos s' = e)"
  by (auto simp: generate_def split: if_splits prod.splits
        dest!: generate_loop_chain init_fields)

lemma requests_chain:
  "requests k f ns s = Some bs \<Longrightarrow>
     \<exists>e. chain_end (last_pos s) (frames_of (packets_of (concat bs))) = Some e"
proof (induction ns arbitrary: s bs)
  case Nil
  then show ?case by simp
next
  case (Cons n ns)
  from Cons.prems show ?case
  proof (cases rule: requests_Cons)
    case (1 es)
    from generate_chain [OF 1(1)] 1(2) show ?thesis by auto
  next
    case (2 es s1)
    from generate_chain [OF 2(1)] 2(3) show ?thesis by auto
  next
    case (3 es s1 bs1)
    from Cons.IH [OF 3(3)] generate_chain [OF 3(1)] 3(4) show ?thesis
      by (auto simp: packets_of_append frames_of_append chain_end_append)
  qed
qed

lemma video_positions_step:
  "rp < length tape \<Longrightarrow>
     video_positions idx (drop rp tape) =
       (if 0 \<le> fst (tape ! rp) \<and> pkt_stream_index (snd (tape ! rp)) = idx
        then [pkt_pos (snd (tape ! rp))] else []) @ video_positions idx (drop (Suc rp) tape)"
  by (simp add: video_positions_def Cons_nth_drop_Suc [symmetric] split: prod.splits)

lemma generate_loop_ordered:
  "generate_loop k f cnt n s = Some (es, a) \<Longrightarrow> \<not> loop s \<Longrightarrow> well_spaced f s \<Longrightarrow>
     ordered_ids es \<and>
     (\<forall>s'. a = Returned s' \<longrightarrow>
        \<not> loop s' \<and> stream_idx s' = stream_idx s \<and> fmt_ctx s' = fmt_ctx s \<and> well_spaced f s')"
proof (induction k arbitrary: n s es a)
  case 0
  then show ?case by simp
next
  case (Suc k)
  show ?case
  proof (cases "n < cnt")
    case False
    with Suc.prems show ?thesis by (auto simp: ordered_ids_def)
  next
    case True
    note lt = this
    show ?thesis
    proof (cases "metadata_sent s")
      case False
      let ?s0 = "s\<lparr>metadata_sent := True\<rparr>"
      from False lt Suc.prems obtain es0 where
        r: "generate_loop k f cnt (n + 1) ?s0 = Some (es0, a)"
        and es: "es = On_next (Metadata \<lparr>codec_name = dec_name f, codec_data = extradata f\<rparr>) # es0"
        by (auto simp: send_metadata_def emit_Some)
      from Suc.prems(2,3) have "\<not> loop ?s0" "well_spaced f ?s0"
        by (simp_all add: well_spaced_def)
      from Suc.IH [OF r this] es show ?thesis by (simp add: ordered_ids_def)
    next
      case True
      note ms = this
      show ?thesis
      proof (cases "read_pos s < length (packets f)")
        case False
        with lt ms Suc.prems show ?thesis
          by (auto simp: av_read_frame_def AVERROR_EOF_def ordered_ids_def)
      next
        case True
        note inr = this
        obtain ret pkt where item: "packets f ! read_pos s = (ret, pkt)"
          by (cases "packets f ! read_pos s")
        let ?s1 = "s\<lparr>read_pos := Suc (read_pos s)\<rparr>"
        note vp = video_positions_step [OF inr, of "stream_idx s"]
        show ?thesis
        proof (cases "ret < 0")
          case True
          with lt ms inr item Suc.prems vp show ?thesis
            by (auto simp: av_read_frame_def ordered_ids_def well_spaced_def split: if_splits)
        next
          case False
          note ok = this
          show ?thesis
          proof (cases "pkt_stream_index pkt = stream_idx s")
            case False
            with ok lt ms inr item Suc.prems have
              r: "generate_loop k f cnt n ?s1 = Some (es, a)"
              by (auto simp: av_read_frame_def)
            from False ok item vp Suc.prems(2,3) have "\<not> loop ?s1" "well_spaced f ?s1"
              by (simp_all add: well_spaced_def)
            from Suc.IH [OF r this] show ?thesis by simp
          next
            case True
            note vid = this
            let ?s2 = "?s1\<lparr>last_pos := pkt_pos pkt + 1\<rparr>"
            show ?thesis
            proof (cases "make_frame f (start s) (last_pos s) pkt")
              case None
              with vid ok lt ms inr item Suc.prems(1) show ?thesis
                by (auto simp: av_read_frame_def ordered_ids_def)
            next
              case (Some fr)
              with vid ok lt ms inr item Suc.prems(1) obtain es0 where
                r: "generate_loop k f cnt (n + 1) ?s2 = Some (es0, a)"
                and es: "es = On_next (Frame fr) # es0"
                by (auto simp: av_read_frame_def emit_Some)
              from vid ok item vp Suc.prems(2,3) have "\<not> loop ?s2" "well_spaced f ?s2"
                and here: "last_pos s <s pkt_pos pkt"
                by (simp_all add: well_spaced_def)
              from Suc.IH [OF r this(1,2)] es here make_frame_Some [OF Some] show ?thesis
                by (simp add: ordered_ids_def)
            qed
          qed
        qed
      qed
    qed
  qed
qed

lemma generate_ordered:
  assumes "generate k f cnt s = Some (es, a)" and "spaced_source f s"
  shows "ordered_ids es \<and>
     (\<forall>s'. a = Returned s' \<longrightarrow> list_ex is_terminal es \<or> spaced_source f s')"
proof (cases "fmt_ctx s")
  case True
  with assms have g: "generate_loop k f cnt 0 s = Some (es, a)"
    and "\<not> loop s" "well_spaced f s" and idx: "stream_idx s = find_best_stream_ret f"
    by (simp_all add: generate_def spaced_source_def)
  from generate_loop_ordered [OF this(1,2,3)] True idx show ?thesis
    by (simp add: spaced_source_def)
next
  case False
  obtain ret s1 where i: "init f s = (ret, s1)" by (cases "init f s")
  note fl = init_fields [OF i]
  show ?thesis
  proof (cases "ret = 0")
    case True
    with assms(1) False i have g: "generate_loop k f cnt 0 s1 = Some (es, a)"
      by (simp add: generate_def)
    from assms(2) False True fl have "\<not> loop s1" "well_spaced f s1"
      by (simp_all add: spaced_source_def well_spaced_def)
    from generate_loop_ordered [OF g this] True fl show ?thesis
      by (simp add: spaced_source_def)
  next
    case False
    with assms(1) \<open>\<not> fmt_ctx s\<close> i show ?thesis
      by (auto simp: generate_def ordered_ids_def)
  qed
qed

lemma requests_ordered:
  "requests k f ns s = Some bs \<Longrightarrow> spaced_source f s \<Longrightarrow> ordered_ids (concat bs)"
proof (induction ns arbitrary: s bs)
  case Nil
  then show ?case by (simp add: ordered_ids_def)
next
  case (Cons n ns)
  from Cons.prems(1) show ?case
  proof (cases rule: requests_Cons)
    case (1 es)
    from generate_ordered [OF 1(1) Cons.prems(2)] 1(2) show ?thesis by simp
  next
    case (2 es s1)
    from generate_ordered [OF 2(1) Cons.prems(2)] 2(3) show ?thesis by simp
  next
    case (3 es s1 bs1)
    note o = generate_ordered [OF 3(1) Cons.prems(2)]
    from o 3(2) have "spaced_source f s1" by simp
    from Cons.IH [OF 3(3) this] o 3(4) show ?thesis
      by (auto simp: ordered_ids_def packets_of_append frames_of_append)
  qed
qed

text \<open>
  C3, as the code has it. Along one subscription to the file source the first frame starts
  at 0 and each next frame starts one past the end of the frame before it (in 64-bit
  arithmetic), whatever the file and the requests. That a frame's \<open>i1\<close> is below its \<open>i2\<close>
  holds when the source does not loop and the byte positions of the video packets are
  spaced: the first is above 0 and each is above the one before it plus one.
\<close>

theorem file_source_frame_ids:
  assumes "requests fuel f ns (new_file_source_impl name lp now) = Some bs"
  shows "(\<forall>k. Suc k < length (frames_of (packets_of (concat bs))) \<longrightarrow>
            i1 (ef_id (frames_of (packets_of (concat bs)) ! Suc k)) =
            i2 (ef_id (frames_of (packets_of (concat bs)) ! k)) + 1) \<and>
         (frames_of (packets_of (concat bs)) \<noteq> [] \<longrightarrow>
            i1 (ef_id (hd (frames_of (packets_of (concat bs))))) = 0) \<and>
         (\<not> lp \<and> spaced 0 (video_positions (find_best_stream_ret f) (packets f)) \<longrightarrow>
            (\<forall>fr \<in> set (frames_of (packets_of (concat bs))). i1 (ef_id fr) <s i2 (ef_id fr)))"
proof -
  let ?s = "new_file_source_impl name lp now"
  have lp0: "last_pos ?s = 0" by (simp add: new_file_source_impl_def)
  from requests_chain [OF assms] lp0 obtain e where
    ce: "chain_end 0 (frames_of (packets_of (concat bs))) = Some e"
    by auto
  have "\<forall>fr \<in> set (frames_of (packets_of (concat bs))). i1 (ef_id fr) <s i2 (ef_id fr)"
    if "\<not> lp" and "spaced 0 (video_positions (find_best_stream_ret f) (packets f))"
  proof -
    from that have "spaced_source f ?s"
      by (simp add: spaced_source_def new_file_source_impl_def)
    from requests_ordered [OF assms this] show ?thesis by (simp add: ordered_ids_def)
  qed
  with chain_end_successive [OF ce] chain_end_hd [OF ce] show ?thesis by blast
qed

theorem file_source_frame_ids_witness:
  "requests 6 (one_packet_file 10) [1, 3] (new_file_source_impl ''a'' False 0) =
     Some [[On_next (Metadata \<lparr>codec_name = ''h264'', codec_data = ''x''\<rparr>)],
           [On_next (Frame \<lparr>ef_data = ''ab'', ef_id = \<lparr>i1 = 0, i2 = 10\<rparr>,
                            timestamp = 40000000, key_frame = True\<rparr>),
            On_complete]] \<and>
   spaced 0 (video_positions (find_best_stream_ret (one_packet_file 10))
     (packets (one_packet_file 10))) \<and>
   (0 :: 64 word) <s 10"
proof -
  note r = one_packet_run
  have sp: "spaced 0 (video_positions (find_best_stream_ret (one_packet_file 10))
      (packets (one_packet_file 10)))"
    by (simp add: one_packet_file_def video_positions_def word_sless_alt)
  from file_source_frame_ids [OF r] sp have "(0 :: 64 word) <s 10"
    by (simp add: word_sless_alt)
  with r sp show ?thesis by blast
qed

text \<open>
  The claim as stated fails twice. A first packet at byte position 0 gives the frame the
  id \<open>[0, 0)\<close>. And a looping source keeps \<open>_last_pos\<close> across the restart, so the first
  frame after it starts past the end of the file and ends at the first packet's position.
\<close>

theorem file_source_frame_ids_counterexample:
  "requests 6 (one_packet_file 0) [2] (new_file_source_impl ''a'' False 0) =
     Some [[On_next (Metadata \<lparr>codec_name = ''h264'', codec_data = ''x''\<rparr>),
            On_next (Frame \<lparr>ef_data = ''ab'', ef_id = \<lparr>i1 = 0, i2 = 0\<rparr>,
                            timestamp = 40000000, key_frame = True\<rparr>)]] \<and>
   \<not> (0 :: 64 word) <s 0 \<and>
   requests 6 (one_packet_file 10) [3] (new_file_source_impl ''a'' True 0) =
     Some [[On_next (Metadata \<lparr>codec_name = ''h264'', codec_data = ''x''\<rparr>),
            On_next (Frame \<lparr>ef_data = ''ab'', ef_id = \<lparr>i1 = 0, i2 = 10\<rparr>,
                            timestamp = 40000000, key_frame = True\<rparr>),
            On_next (Frame \<lparr>ef_data = ''ab'', ef_id = \<lparr>i1 = 11, i2 = 10\<rparr>,
                            timestamp = 40000000, key_frame = True\<rparr>)]] \<and>
   \<not> (11 :: 64 word) <s 10"
  by (simp add: file_source_eval)


subsection \<open>The end of the input\<close>

text \<open>The frames of a file are made of its packets of the chosen stream, one each, in order.\<close>

lemma all_frames_packets:
  "all_frames f st idx lp tape = Some frs \<Longrightarrow>
     map ef_data frs =
       map (pkt_data \<circ> snd) (filter (\<lambda>item. pkt_stream_index (snd item) = idx) tape) \<and>
     map (i2 \<circ> ef_id) frs =
       map (pkt_pos \<circ> snd) (filter (\<lambda>item. pkt_stream_index (snd item) = idx) tape)"
proof (induction tape arbitrary: lp frs)
  case Nil
  then show ?case by simp
next
  case (Cons item tape)
  obtain ret pkt where item: "item = (ret, pkt)" by (cases item)
  show ?case
  proof (cases "pkt_stream_index pkt = idx")
    case False
    with Cons.prems item Cons.IH [of lp frs] show ?thesis by simp
  next
    case True
    with Cons.prems item obtain fr frs0 where
      mf: "make_frame f st lp pkt = Some fr"
      and r: "all_frames f st idx (pkt_pos pkt + 1) tape = Some frs0"
      and frs: "frs = fr # frs0"
      by (auto split: option.splits)
    from Cons.IH [OF r] make_frame_Some [OF mf] True item frs show ?thesis by simp
  qed
qed

text \<open>With a positive denominator of the time base no division traps: the file has its frames.\<close>

lemma scast_positive:
  assumes "0 <s (d :: 32 word)"
  shows "(scast d :: 64 word) \<noteq> 0 \<and> (scast d :: 64 word) \<noteq> - 1"
proof -
  have "sint (scast d :: 64 word) = sint d"
    by (rule sint_up_scast) (simp add: is_up)
  with assms have "0 < sint (scast d :: 64 word)"
    by (simp add: word_sless_alt)
  then show ?thesis by auto
qed

lemma make_frame_defined: "0 <s time_base_den f \<Longrightarrow> \<exists>fr. make_frame f st lp pkt = Some fr"
  using scast_positive [of "time_base_den f"] by (simp add: make_frame_def div64_def)

lemma all_frames_defined:
  "0 <s time_base_den f \<Longrightarrow> \<exists>frs. all_frames f st idx lp tape = Some frs"
proof (induction tape arbitrary: lp)
  case Nil
  then show ?case by simp
next
  case (Cons item tape)
  obtain ret pkt where item: "item = (ret, pkt)" by (cases item)
  from make_frame_defined [OF Cons.prems] obtain fr where "make_frame f st lp pkt = Some fr"
    by blast
  with Cons.IH [OF Cons.prems, of lp] Cons.IH [OF Cons.prems, of "pkt_pos pkt + 1"] item
  show ?case by auto
qed

text \<open>What is still to come, by the state of the source and the reader's next answer.\<close>

lemma to_come_metadata:
  assumes "\<not> metadata_sent s" and "to_come f s = Some ts"
  obtains ts0 where
    "ts = On_next (Metadata \<lparr>codec_name = dec_name f, codec_data = extradata f\<rparr>) # ts0"
    and "to_come f (s\<lparr>metadata_sent := True\<rparr>) = Some ts0"
  using assms by (auto simp: to_come_def)

lemma to_come_end:
  "metadata_sent s \<Longrightarrow> \<not> read_pos s < length (packets f) \<Longrightarrow> to_come f s = Some ts \<Longrightarrow>
     ts = []"
  by (auto simp: to_come_def)

lemma to_come_other:
  assumes "read_pos s < length (packets f)" and "packets f ! read_pos s = (ret, pkt)"
    and "pkt_stream_index pkt \<noteq> find_best_stream_ret f"
  shows "to_come f (s\<lparr>read_pos := Suc (read_pos s)\<rparr>) = to_come f s"
  using assms by (simp add: to_come_def Cons_nth_drop_Suc [symmetric])

lemma to_come_frame:
  assumes "metadata_sent s" and "read_pos s < length (packets f)"
    and "packets f ! read_pos s = (ret, pkt)"
    and "pkt_stream_index pkt = find_best_stream_ret f" and "to_come f s = Some ts"
  obtains fr ts0 where "make_frame f (start s) (last_pos s) pkt = Some fr"
    and "ts = On_next (Frame fr) # ts0"
    and "to_come f (s\<lparr>read_pos := Suc (read_pos s), last_pos := pkt_pos pkt + 1\<rparr>) = Some ts0"
  using assms
  by (auto simp: to_come_def Cons_nth_drop_Suc [symmetric] split: option.splits)

lemma to_come_no_terminal: "to_come f s = Some ts \<Longrightarrow> e \<in> set ts \<Longrightarrow> \<not> is_terminal e"
  by (auto simp: to_come_def split: if_splits)

text \<open>
  One call of the loop of a source that does not loop, on a file whose reads succeed and
  whose frames can all be made, with fuel for every pass. Asked for more than is still to
  come, it gives all of it and completes; otherwise it gives as many signals as it was
  asked for, the first of those to come, and the rest is still to come.
\<close>

lemma generate_loop_gives:
  "\<not> loop s \<Longrightarrow> stream_idx s = find_best_stream_ret f \<Longrightarrow>
   \<forall>item \<in> set (packets f). 0 \<le> fst item \<Longrightarrow>
   to_come f s = Some ts \<Longrightarrow>
   length (packets f) - read_pos s + (if metadata_sent s then 0 else 1) < k \<Longrightarrow>
     \<exists>s'. \<not> loop s' \<and> stream_idx s' = stream_idx s \<and> fmt_ctx s' = fmt_ctx s \<and>
       (if int (length ts) < cnt - n
        then generate_loop k f cnt n s = Some (ts @ [On_complete], Returned s')
        else generate_loop k f cnt n s = Some (take (nat (cnt - n)) ts, Returned s') \<and>
             to_come f s' = Some (drop (nat (cnt - n)) ts))"
proof (induction k arbitrary: n s ts)
  case 0
  then show ?case by simp
next
  case (Suc k)
  show ?case
  proof (cases "n < cnt")
    case False
    with Suc.prems(1,4) show ?thesis by auto
  next
    case True
    note lt = this
    then have step: "nat (cnt - n) = Suc (nat (cnt - (n + 1)))" by simp
    show ?thesis
    proof (cases "metadata_sent s")
      case False
      let ?s0 = "s\<lparr>metadata_sent := True\<rparr>"
      let ?m = "On_next (Metadata \<lparr>codec_name = dec_name f, codec_data = extradata f\<rparr>)"
      from False Suc.prems(4) obtain ts0 where ts: "ts = ?m # ts0"
        and tc: "to_come f ?s0 = Some ts0"
        by (rule to_come_metadata)
      from False Suc.prems have "\<not> loop ?s0" "stream_idx ?s0 = find_best_stream_ret f"
        "length (packets f) - read_pos ?s0 + (if metadata_sent ?s0 then 0 else 1) < k"
        by simp_all
      from Suc.IH [OF this(1,2) Suc.prems(3) tc this(3), of "n + 1"] obtain s' where
        s': "\<not> loop s'" "stream_idx s' = stream_idx ?s0" "fmt_ctx s' = fmt_ctx ?s0"
        and r: "if int (length ts0) < cnt - (n + 1)
          then generate_loop k f cnt (n + 1) ?s0 = Some (ts0 @ [On_complete], Returned s')
          else generate_loop k f cnt (n + 1) ?s0 =
                 Some (take (nat (cnt - (n + 1))) ts0, Returned s') \<and>
               to_come f s' = Some (drop (nat (cnt - (n + 1))) ts0)"
        by blast
      have g: "generate_loop (Suc k) f cnt n s = emit ?m (generate_loop k f cnt (n + 1) ?s0)"
        using False lt by (simp add: send_metadata_def)
      have "if int (length ts) < cnt - n
        then generate_loop (Suc k) f cnt n s = Some (ts @ [On_complete], Returned s')
        else generate_loop (Suc k) f cnt n s = Some (take (nat (cnt - n)) ts, Returned s') \<and>
             to_come f s' = Some (drop (nat (cnt - n)) ts)"
      proof (cases "int (length ts0) < cnt - (n + 1)")
        case True
        with r g ts show ?thesis by (simp add: emit_def)
      next
        case False
        with r g ts step show ?thesis by (simp add: emit_def)
      qed
      with s' show ?thesis by auto
    next
      case True
      note ms = this
      show ?thesis
      proof (cases "read_pos s < length (packets f)")
        case False
        with ms Suc.prems(4) have "ts = []" by (simp add: to_come_end)
        with False lt ms Suc.prems(1) show ?thesis
          unfolding generate_loop_read [OF lt ms] by auto
      next
        case True
        note inr = this
        obtain ret pkt where item: "packets f ! read_pos s = (ret, pkt)"
          by (cases "packets f ! read_pos s")
        let ?s1 = "s\<lparr>read_pos := Suc (read_pos s)\<rparr>"
        from inr item Suc.prems(3) have ok: "\<not> ret < 0"
          by (metis fst_conv nth_mem not_less)
        from inr ms Suc.prems(5) have
          fuel: "length (packets f) - Suc (read_pos s) + (if metadata_sent s then 0 else 1) < k"
          by simp
        show ?thesis
        proof (cases "pkt_stream_index pkt = stream_idx s")
          case False
          with Suc.prems(2) have "pkt_stream_index pkt \<noteq> find_best_stream_ret f" by simp
          from to_come_other [OF inr item this] Suc.prems(4) have tc: "to_come f ?s1 = Some ts"
            by simp
          from ms Suc.prems fuel have "\<not> loop ?s1" "stream_idx ?s1 = find_best_stream_ret f"
            "length (packets f) - read_pos ?s1 + (if metadata_sent ?s1 then 0 else 1) < k"
            by simp_all
          from Suc.IH [OF this(1,2) Suc.prems(3) tc this(3), of n] obtain s' where
            s': "\<not> loop s'" "stream_idx s' = stream_idx ?s1" "fmt_ctx s' = fmt_ctx ?s1"
            and r: "if int (length ts) < cnt - n
              then generate_loop k f cnt n ?s1 = Some (ts @ [On_complete], Returned s')
              else generate_loop k f cnt n ?s1 = Some (take (nat (cnt - n)) ts, Returned s') \<and>
                   to_come f s' = Some (drop (nat (cnt - n)) ts)"
            by blast
          from False ok inr item have
            "generate_loop (Suc k) f cnt n s = generate_loop k f cnt n ?s1"
            unfolding generate_loop_read [OF lt ms] by simp
          with r s' show ?thesis by auto
        next
          case True
          let ?s2 = "s\<lparr>read_pos := Suc (read_pos s), last_pos := pkt_pos pkt + 1\<rparr>"
          from True Suc.prems(2) have "pkt_stream_index pkt = find_best_stream_ret f" by simp
          from ms inr item this Suc.prems(4) obtain fr ts0 where
            mf: "make_frame f (start s) (last_pos s) pkt = Some fr"
            and ts: "ts = On_next (Frame fr) # ts0"
            and tc: "to_come f ?s2 = Some ts0"
            by (rule to_come_frame)
          from ms Suc.prems fuel have "\<not> loop ?s2" "stream_idx ?s2 = find_best_stream_ret f"
            "length (packets f) - read_pos ?s2 + (if metadata_sent ?s2 then 0 else 1) < k"
            by simp_all
          from Suc.IH [OF this(1,2) Suc.prems(3) tc this(3), of "n + 1"] obtain s' where
            s': "\<not> loop s'" "stream_idx s' = stream_idx ?s2" "fmt_ctx s' = fmt_ctx ?s2"
            and r: "if int (length ts0) < cnt - (n + 1)
              then generate_loop k f cnt (n + 1) ?s2 = Some (ts0 @ [On_complete], Returned s')
              else generate_loop k f cnt (n + 1) ?s2 =
                     Some (take (nat (cnt - (n + 1))) ts0, Returned s') \<and>
                   to_come f s' = Some (drop (nat (cnt - (n + 1))) ts0)"
            by blast
          from True ok inr item mf have
            g: "generate_loop (Suc k) f cnt n s =
                  emit (On_next (Frame fr)) (generate_loop k f cnt (n + 1) ?s2)"
            unfolding generate_loop_read [OF lt ms] by simp
          have "if int (length ts) < cnt - n
            then generate_loop (Suc k) f cnt n s = Some (ts @ [On_complete], Returned s')
            else generate_loop (Suc k) f cnt n s = Some (take (nat (cnt - n)) ts, Returned s') \<and>
                 to_come f s' = Some (drop (nat (cnt - n)) ts)"
          proof (cases "int (length ts0) < cnt - (n + 1)")
            case True
            with r g ts show ?thesis by (simp add: emit_def)
          next
            case False
            with r g ts step show ?thesis by (simp add: emit_def)
          qed
          with s' show ?thesis by auto
        qed
      qed
    qed
  qed
qed

lemma readable_opened:
  assumes "readable f s"
  obtains s1 where "generate k f cnt s = generate_loop k f cnt 0 s1"
    and "\<not> loop s1" and "stream_idx s1 = find_best_stream_ret f" and "fmt_ctx s1"
    and "to_come f s1 = to_come f s" and "read_pos s1 = read_pos s"
    and "metadata_sent s1 = metadata_sent s"
proof (cases "fmt_ctx s")
  case True
  with assms that [of s] show ?thesis by (simp add: generate_def readable_def)
next
  case False
  obtain ret s1 where i: "init f s = (ret, s1)" by (cases "init f s")
  with assms False have ret: "ret = 0" and rp: "read_pos s = 0" and nl: "\<not> loop s"
    by (simp_all add: readable_def)
  note fl = init_fields [OF i]
  from False i ret have "generate k f cnt s = generate_loop k f cnt 0 s1"
    by (simp add: generate_def)
  with that [of s1] fl ret rp nl show ?thesis by (simp add: to_come_def)
qed

lemma requests_give_all:
  "readable f s \<Longrightarrow> \<forall>item \<in> set (packets f). 0 \<le> fst item \<Longrightarrow>
   to_come f s = Some ts \<Longrightarrow>
   int (length ts) < sum_list (map (max 0) ns) \<Longrightarrow> length (packets f) + 1 < k \<Longrightarrow>
     \<exists>bs. requests k f ns s = Some bs \<and> concat bs = ts @ [On_complete]"
proof (induction ns arbitrary: s ts)
  case Nil
  then show ?case by simp
next
  case (Cons n ns)
  from Cons.prems(1) obtain s1 where g: "generate k f n s = generate_loop k f n 0 s1"
    and s1: "\<not> loop s1" "stream_idx s1 = find_best_stream_ret f" "fmt_ctx s1"
    and t1: "to_come f s1 = to_come f s"
    by (rule readable_opened)
  from Cons.prems(5) have
    fuel: "length (packets f) - read_pos s1 + (if metadata_sent s1 then 0 else 1) < k"
    by (cases "metadata_sent s1") auto
  from t1 Cons.prems(3) have tc: "to_come f s1 = Some ts" by simp
  from generate_loop_gives [OF s1(1,2) Cons.prems(2) tc fuel, of n 0] obtain s' where
    s': "\<not> loop s'" "stream_idx s' = stream_idx s1" "fmt_ctx s' = fmt_ctx s1"
    and r: "if int (length ts) < n
      then generate_loop k f n 0 s1 = Some (ts @ [On_complete], Returned s')
      else generate_loop k f n 0 s1 = Some (take (nat n) ts, Returned s') \<and>
           to_come f s' = Some (drop (nat n) ts)"
    by auto
  show ?case
  proof (cases "int (length ts) < n")
    case True
    with r g have "requests k f (n # ns) s = Some [ts @ [On_complete]]"
      by (simp add: list_ex_iff)
    then show ?thesis by simp
  next
    case False
    with r have r1: "generate_loop k f n 0 s1 = Some (take (nat n) ts, Returned s')"
      and tc': "to_come f s' = Some (drop (nat n) ts)"
      by simp_all
    from to_come_no_terminal [OF tc] have nt: "\<not> list_ex is_terminal (take (nat n) ts)"
      by (auto simp: list_ex_iff dest: in_set_takeD)
    from s' s1 have rd: "readable f s'" by (simp add: readable_def)
    from False Cons.prems(4) have "int (length (drop (nat n) ts)) < sum_list (map (max 0) ns)"
      by auto
    from Cons.IH [OF rd Cons.prems(2) tc' this Cons.prems(5)] obtain bs1 where
      "requests k f ns s' = Some bs1" "concat bs1 = drop (nat n) ts @ [On_complete]"
      by blast
    with r1 g nt have "requests k f (n # ns) s = Some (take (nat n) ts # bs1) \<and>
        concat (take (nat n) ts # bs1) = ts @ [On_complete]"
      by simp
    then show ?thesis by blast
  qed
qed

text \<open>
  The errors that the file source signals, in any call: \<^verbatim>\<open>FrameGenerationError\<close> from the
  loop and \<^verbatim>\<open>StreamInitializationError\<close> from the opening, and no other.
\<close>

lemma generate_loop_errors:
  "generate_loop k f cnt n s = Some (es, a) \<Longrightarrow> On_error ec \<in> set es \<Longrightarrow>
     ec = Video_error FrameGenerationError"
proof (induction k arbitrary: n s es a)
  case 0
  then show ?case by simp
next
  case (Suc k)
  show ?case
  proof (cases "n < cnt")
    case False
    with Suc.prems show ?thesis by auto
  next
    case True
    note lt = this
    show ?thesis
    proof (cases "metadata_sent s")
      case False
      with lt Suc.prems Suc.IH show ?thesis
        by (fastforce simp: send_metadata_def emit_Some)
    next
      case True
      from Suc.prems(1) have "generate_loop (Suc k) f cnt n s = Some (es, a)" .
      with Suc.IH Suc.prems(2) show ?thesis
        unfolding generate_loop_read [OF lt True]
        by (fastforce simp: av_seek_frame_def emit_Some Let_def split: if_splits option.splits)
    qed
  qed
qed

lemma generate_errors:
  "generate k f cnt s = Some (es, a) \<Longrightarrow> On_error ec \<in> set es \<Longrightarrow>
     ec = Video_error StreamInitializationError \<or> ec = Video_error FrameGenerationError"
  by (auto simp: generate_def split: if_splits prod.splits dest: generate_loop_errors)

lemma requests_errors:
  "requests k f ns s = Some bs \<Longrightarrow> On_error ec \<in> set (concat bs) \<Longrightarrow>
     ec = Video_error StreamInitializationError \<or> ec = Video_error FrameGenerationError"
proof (induction ns arbitrary: s bs)
  case Nil
  then show ?case by simp
next
  case (Cons n ns)
  from Cons.prems(1) show ?case
  proof (cases rule: requests_Cons)
    case (1 es)
    with Cons.prems(2) generate_errors [OF 1(1)] show ?thesis by simp
  next
    case (2 es s1)
    with Cons.prems(2) generate_errors [OF 2(1)] show ?thesis by simp
  next
    case (3 es s1 bs1)
    with Cons.prems(2) generate_errors [OF 3(1)] Cons.IH [OF 3(3)] show ?thesis by auto
  qed
qed

text \<open>
  C7, as the code has it. A file source that does not loop, on a file that opens, whose
  reads succeed up to the end of the input and whose time stamps can all be computed:
  once the requests ask for more than the metadata and the frames, the subscription gives
  the metadata, then one frame for each packet of the video stream in the order of the
  file, and ends with \<^verbatim>\<open>on_complete\<close>; there is no \<^verbatim>\<open>on_error\<close>. And in every
  subscription, looping or not, whatever the file and the requests, an \<^verbatim>\<open>on_error\<close> carries
  \<^verbatim>\<open>StreamInitializationError\<close> or \<^verbatim>\<open>FrameGenerationError\<close>: \<^verbatim>\<open>EndOfStreamError\<close> is never
  signalled.
\<close>

theorem file_source_eof_completes:
  "(fst (init f (new_file_source_impl name False now)) = 0 \<and>
    (\<forall>item \<in> set (packets f). 0 \<le> fst item) \<and>
    all_frames f now (find_best_stream_ret f) 0 (packets f) = Some frs \<and>
    1 + int (length frs) < sum_list (map (max 0) ns) \<and>
    length (packets f) + 1 < fuel \<longrightarrow>
      (\<exists>bs. requests fuel f ns (new_file_source_impl name False now) = Some bs \<and>
         concat bs =
           On_next (Metadata \<lparr>codec_name = dec_name f, codec_data = extradata f\<rparr>) #
           map (\<lambda>fr. On_next (Frame fr)) frs @ [On_complete]) \<and>
      map ef_data frs =
        map (pkt_data \<circ> snd)
          (filter (\<lambda>item. pkt_stream_index (snd item) = find_best_stream_ret f) (packets f))) \<and>
   (requests fuel f ns (new_file_source_impl name lp now) = Some cs \<longrightarrow>
      On_error (Video_error EndOfStreamError) \<notin> set (concat cs) \<and>
      (\<forall>ec. On_error ec \<in> set (concat cs) \<longrightarrow>
         ec = Video_error StreamInitializationError \<or> ec = Video_error FrameGenerationError))"
proof (intro conjI impI)
  let ?s = "new_file_source_impl name False now"
  assume a: "fst (init f ?s) = 0 \<and> (\<forall>item \<in> set (packets f). 0 \<le> fst item) \<and>
    all_frames f now (find_best_stream_ret f) 0 (packets f) = Some frs \<and>
    1 + int (length frs) < sum_list (map (max 0) ns) \<and> length (packets f) + 1 < fuel"
  then have rd: "readable f ?s"
    by (simp add: readable_def new_file_source_impl_def)
  from a have tc: "to_come f ?s =
      Some (On_next (Metadata \<lparr>codec_name = dec_name f, codec_data = extradata f\<rparr>) #
        map (\<lambda>fr. On_next (Frame fr)) frs)"
    by (simp add: to_come_def new_file_source_impl_def)
  from a have "int (length (On_next (Metadata \<lparr>codec_name = dec_name f,
      codec_data = extradata f\<rparr>) # map (\<lambda>fr. On_next (Frame fr)) frs))
      < sum_list (map (max 0) ns)"
    by simp
  from requests_give_all [OF rd _ tc this] a
  show "\<exists>bs. requests fuel f ns ?s = Some bs \<and>
      concat bs =
        On_next (Metadata \<lparr>codec_name = dec_name f, codec_data = extradata f\<rparr>) #
        map (\<lambda>fr. On_next (Frame fr)) frs @ [On_complete]"
    by simp
  from a all_frames_packets [of f now "find_best_stream_ret f" 0 "packets f" frs]
  show "map ef_data frs =
      map (pkt_data \<circ> snd)
        (filter (\<lambda>item. pkt_stream_index (snd item) = find_best_stream_ret f) (packets f))"
    by simp
next
  assume r: "requests fuel f ns (new_file_source_impl name lp now) = Some cs"
  from requests_errors [OF r]
  show "On_error (Video_error EndOfStreamError) \<notin> set (concat cs)"
    by blast
  from requests_errors [OF r]
  show "\<forall>ec. On_error ec \<in> set (concat cs) \<longrightarrow>
      ec = Video_error StreamInitializationError \<or> ec = Video_error FrameGenerationError"
    by blast
qed

lemma one_packet_frames:
  "all_frames (one_packet_file 10) 0 (find_best_stream_ret (one_packet_file 10)) 0
       (packets (one_packet_file 10)) =
     Some [\<lparr>ef_data = ''ab'', ef_id = \<lparr>i1 = 0, i2 = 10\<rparr>,
            timestamp = 40000000, key_frame = True\<rparr>]"
  by (simp add: one_packet_file_def make_frame_millis AV_PKT_FLAG_KEY_def)

theorem file_source_eof_completes_witness:
  "fst (init (one_packet_file 10) (new_file_source_impl ''a'' False 0)) = 0 \<and>
   list_all (\<lambda>item. 0 \<le> fst item) (packets (one_packet_file 10)) \<and>
   all_frames (one_packet_file 10) 0 (find_best_stream_ret (one_packet_file 10)) 0
       (packets (one_packet_file 10)) =
     Some [\<lparr>ef_data = ''ab'', ef_id = \<lparr>i1 = 0, i2 = 10\<rparr>,
            timestamp = 40000000, key_frame = True\<rparr>] \<and>
   length (packets (one_packet_file 10)) + 1 < 3 \<and>
   (\<exists>bs. requests 3 (one_packet_file 10) [1, 1, 1] (new_file_source_impl ''a'' False 0)
        = Some bs \<and>
      concat bs =
        [On_next (Metadata \<lparr>codec_name = ''h264'', codec_data = ''x''\<rparr>),
         On_next (Frame \<lparr>ef_data = ''ab'', ef_id = \<lparr>i1 = 0, i2 = 10\<rparr>,
                         timestamp = 40000000, key_frame = True\<rparr>),
         On_complete])"
proof -
  have h1: "fst (init (one_packet_file 10) (new_file_source_impl ''a'' False 0)) = 0"
    by (simp add: init_def one_packet_file_def)
  have h2: "\<forall>item \<in> set (packets (one_packet_file 10)). 0 \<le> fst item"
    by (simp add: one_packet_file_def)
  note h3 = one_packet_frames
  have h4: "length (packets (one_packet_file 10)) + 1 < 3"
    by (simp add: one_packet_file_def)
  from h2 have h2': "list_all (\<lambda>item. 0 \<le> fst item) (packets (one_packet_file 10))"
    by (simp add: list_all_iff)
  have names: "dec_name (one_packet_file 10) = ''h264''" "extradata (one_packet_file 10) = ''x''"
    by (simp_all add: one_packet_file_def)
  from file_source_eof_completes [of "one_packet_file 10" "''a''" 0
      "[\<lparr>ef_data = ''ab'', ef_id = \<lparr>i1 = 0, i2 = 10\<rparr>, timestamp = 40000000, key_frame = True\<rparr>]"
      "[1, 1, 1]" 3] h1 h2 h3 h4
  have "\<exists>bs. requests 3 (one_packet_file 10) [1, 1, 1] (new_file_source_impl ''a'' False 0)
        = Some bs \<and>
      concat bs =
        [On_next (Metadata \<lparr>codec_name = ''h264'', codec_data = ''x''\<rparr>),
         On_next (Frame \<lparr>ef_data = ''ab'', ef_id = \<lparr>i1 = 0, i2 = 10\<rparr>,
                         timestamp = 40000000, key_frame = True\<rparr>),
         On_complete]"
    by (simp add: names)
  with h1 h2' h3 h4 show ?thesis by blast
qed

text \<open>
  The claim as stated fails: at the end of a file that does not loop, \<^verbatim>\<open>generate\<close> calls
  \<^verbatim>\<open>on_complete\<close>; the last signal is not \<^verbatim>\<open>on_error(EndOfStreamError)\<close>.
\<close>

theorem file_source_eof_counterexample:
  "requests 3 (one_packet_file 10) [1, 1, 1] (new_file_source_impl ''a'' False 0) =
     Some [[On_next (Metadata \<lparr>codec_name = ''h264'', codec_data = ''x''\<rparr>)],
           [On_next (Frame \<lparr>ef_data = ''ab'', ef_id = \<lparr>i1 = 0, i2 = 10\<rparr>,
                            timestamp = 40000000, key_frame = True\<rparr>)],
           [On_complete]] \<and>
   On_complete \<noteq> (On_error (Video_error EndOfStreamError) :: encoded_packet signal)"
  by (simp add: file_source_eval)

subsection \<open>A source that does not loop always returns\<close>

text \<open>
  Without \<^verbatim>\<open>_loop\<close> every pass of the loop either ends the call or reads one more answer of
  the file, so fuel for the length of the file and two more passes is enough, whatever the
  file answers and whatever is requested: each call returns or the process dies in it.
\<close>

lemma generate_loop_returns:
  "\<not> loop s \<Longrightarrow>
   length (packets f) - read_pos s + (if metadata_sent s then 0 else 1) < k \<Longrightarrow>
     \<exists>es a. generate_loop k f cnt n s = Some (es, a) \<and> (\<forall>s'. a = Returned s' \<longrightarrow> \<not> loop s')"
proof (induction k arbitrary: n s)
  case 0
  then show ?case by simp
next
  case (Suc k)
  show ?case
  proof (cases "n < cnt")
    case False
    with Suc.prems(1) show ?thesis by simp
  next
    case True
    note lt = this
    show ?thesis
    proof (cases "metadata_sent s")
      case False
      let ?s0 = "s\<lparr>metadata_sent := True\<rparr>"
      from False Suc.prems have "\<not> loop ?s0"
        "length (packets f) - read_pos ?s0 + (if metadata_sent ?s0 then 0 else 1) < k"
        by simp_all
      from Suc.IH [OF this] obtain es a where
        "generate_loop k f cnt (n + 1) ?s0 = Some (es, a)" "\<forall>s'. a = Returned s' \<longrightarrow> \<not> loop s'"
        by blast
      with False lt show ?thesis by (simp add: send_metadata_def emit_def)
    next
      case True
      note ms = this
      show ?thesis
      proof (cases "read_pos s < length (packets f)")
        case False
        with lt ms Suc.prems(1) show ?thesis
          by (simp add: av_read_frame_def AVERROR_EOF_def)
      next
        case True
        note inr = this
        obtain ret pkt where item: "packets f ! read_pos s = (ret, pkt)"
          by (cases "packets f ! read_pos s")
        let ?s1 = "s\<lparr>read_pos := Suc (read_pos s)\<rparr>"
        let ?s2 = "?s1\<lparr>last_pos := pkt_pos pkt + 1\<rparr>"
        from inr ms Suc.prems have "\<not> loop ?s1"
          "length (packets f) - read_pos ?s1 + (if metadata_sent ?s1 then 0 else 1) < k"
          by simp_all
        from Suc.IH [OF this, of n] obtain es1 a1 where
          r1: "generate_loop k f cnt n ?s1 = Some (es1, a1)"
            "\<forall>s'. a1 = Returned s' \<longrightarrow> \<not> loop s'"
          by blast
        from inr ms Suc.prems have "\<not> loop ?s2"
          "length (packets f) - read_pos ?s2 + (if metadata_sent ?s2 then 0 else 1) < k"
          by simp_all
        from Suc.IH [OF this, of "n + 1"] obtain es2 a2 where
          r2: "generate_loop k f cnt (n + 1) ?s2 = Some (es2, a2)"
            "\<forall>s'. a2 = Returned s' \<longrightarrow> \<not> loop s'"
          by blast
        from inr item Suc.prems(1) r1 r2 show ?thesis
          unfolding generate_loop_read [OF lt ms]
          by (simp add: emit_def Let_def split: option.splits)
      qed
    qed
  qed
qed

lemma generate_returns:
  assumes "\<not> loop s" and "length (packets f) + 1 < k"
  shows "\<exists>es a. generate k f cnt s = Some (es, a) \<and> (\<forall>s'. a = Returned s' \<longrightarrow> \<not> loop s')"
proof -
  obtain ret s1 where i: "init f s = (ret, s1)" by (cases "init f s")
  note fl = init_fields [OF i]
  from assms fl have a: "\<not> loop s1"
    "length (packets f) - read_pos s1 + (if metadata_sent s1 then 0 else 1) < k"
    by auto
  from assms have b:
    "length (packets f) - read_pos s + (if metadata_sent s then 0 else 1) < k"
    by auto
  from generate_loop_returns [OF a, of cnt 0] generate_loop_returns [OF assms(1) b, of cnt 0]
    i fl assms(1) show ?thesis
    by (auto simp: generate_def)
qed

lemma requests_return:
  "\<not> loop s \<Longrightarrow> length (packets f) + 1 < k \<Longrightarrow> \<exists>bs. requests k f ns s = Some bs"
proof (induction ns arbitrary: s)
  case Nil
  then show ?case by simp
next
  case (Cons n ns)
  from generate_returns [OF Cons.prems, of n] obtain es a where
    g: "generate k f n s = Some (es, a)" and nl: "\<forall>s'. a = Returned s' \<longrightarrow> \<not> loop s'"
    by blast
  show ?case
  proof (cases a)
    case Died
    with g show ?thesis by simp
  next
    case (Returned s')
    with nl have "\<not> loop s'" by simp
    from Cons.IH [OF this Cons.prems(2)] obtain bs where "requests k f ns s' = Some bs"
      by blast
    with g Returned show ?thesis by simp
  qed
qed


subsection \<open>A looping source on a file without video packets never returns\<close>

text \<open>
  With \<^verbatim>\<open>_loop\<close> set, on a file whose reads succeed and give no packet of the chosen
  stream, a call that still wants a packet reads to the end, seeks back and starts again,
  for ever: no fuel is enough.
\<close>

lemma generate_loop_spins:
  "loop s \<Longrightarrow> metadata_sent s \<Longrightarrow> n < cnt \<Longrightarrow>
   \<forall>item \<in> set (packets f). 0 \<le> fst item \<and> pkt_stream_index (snd item) \<noteq> stream_idx s \<Longrightarrow>
     generate_loop k f cnt n s = None"
proof (induction k arbitrary: s)
  case 0
  then show ?case by simp
next
  case (Suc k)
  show ?case
  proof (cases "read_pos s < length (packets f)")
    case False
    let ?s1 = "av_seek_frame s"
    from Suc.prems have "loop ?s1" "metadata_sent ?s1"
      "\<forall>item \<in> set (packets f). 0 \<le> fst item \<and> pkt_stream_index (snd item) \<noteq> stream_idx ?s1"
      by (simp_all add: av_seek_frame_def)
    from Suc.IH [OF this(1,2) Suc.prems(3) this(3)] False Suc.prems(1,2,3) show ?thesis
      by (simp add: av_read_frame_def AVERROR_EOF_def)
  next
    case True
    obtain ret pkt where item: "packets f ! read_pos s = (ret, pkt)"
      by (cases "packets f ! read_pos s")
    let ?s1 = "s\<lparr>read_pos := Suc (read_pos s)\<rparr>"
    from True item Suc.prems(4) have ok: "0 \<le> ret" "pkt_stream_index pkt \<noteq> stream_idx s"
      by (metis fst_conv nth_mem, metis snd_conv nth_mem)
    from Suc.prems have "loop ?s1" "metadata_sent ?s1"
      "\<forall>item \<in> set (packets f). 0 \<le> fst item \<and> pkt_stream_index (snd item) \<noteq> stream_idx ?s1"
      by simp_all
    from Suc.IH [OF this(1,2) Suc.prems(3) this(3)] True item ok Suc.prems(2,3) show ?thesis
      by (simp add: av_read_frame_def)
  qed
qed


subsection \<open>Pacing\<close>

text \<open>
  C8. In batch mode \<^verbatim>\<open>file_source\<close> returns the stateful generator as it is, with no
  interval operator. Otherwise it returns the generator under the interval operator with
  a period of \<open>1000 / 25 = 40\<close> milliseconds, the frame rate being the constant 25.
\<close>

theorem file_source_pacing:
  "file_source name lp True = Stateful name lp \<and>
   file_source name lp False = Interval 40 (Stateful name lp)"
  by (simp add: file_source_def)

section \<open>Properties of the deferred value\<close>

text \<open>
  C9. A holder that is not resolved yet answers a query and a move with the kind
  \<^verbatim>\<open>NotInitialized\<close>. Once resolved it is written once: a second write changes nothing.
  The first move gives the value and leaves the holder not ok; the second move fails with
  the kind \<^verbatim>\<open>ValueWasMoved\<close>.
\<close>

theorem deferred_single_use:
  "get_value (unresolved :: 'a error_or) = Inl (Stream_error NotInitialized) \<and>
   fst (move (unresolved :: 'a error_or)) = Inl (Stream_error NotInitialized) \<and>
   \<not> ok (unresolved :: 'a error_or) \<and>
   ok (resolve unresolved v) \<and>
   resolve (resolve unresolved v) w = resolve unresolved v \<and>
   fst (move (resolve unresolved v)) = Inr v \<and>
   \<not> ok (snd (move (resolve unresolved v))) \<and>
   fst (move (snd (move (resolve unresolved v)))) = Inl (Stream_error ValueWasMoved)"
  by (simp add: get_value_def move_def unresolved_def resolve_def ok_def)

section \<open>Properties of the stream engine\<close>

text \<open>What each publisher answers, by field.\<close>

lemma empty_pub_sel:
  "state empty_pub = ()"
  "step_fn empty_pub u = Stop [] Complete"
  "cancel_fn empty_pub u = []"
  by (simp_all add: empty_pub_def)

lemma error_pub_sel:
  "state (error_pub ec) = ()"
  "step_fn (error_pub ec) u = Stop [] (Error ec)"
  "cancel_fn (error_pub ec) u = []"
  by (simp_all add: error_pub_def)

lemma of_pub_sel:
  "state (of_pub vs) = vs"
  "step_fn (of_pub vs) [] = Stop [] Complete"
  "step_fn (of_pub vs) (v # rest) = Yield v rest"
  "cancel_fn (of_pub vs) ws = []"
  by (simp_all add: of_pub_def)

lemma range_pub_sel:
  "state (range_pub lo hi) = lo"
  "step_fn (range_pub lo hi) i = (if i < hi then Yield i (i + 1) else Stop [] Complete)"
  "cancel_fn (range_pub lo hi) i = []"
  by (simp_all add: range_pub_def)

lemma take_op_sel:
  "state (take_op n src) = (if n = 0 then Not_subscribed else Taking n (state src))"
  "step_fn (take_op n src) Not_subscribed = Stop [] Complete"
  "step_fn (take_op n src) (Taking k s) =
     (if k = 0 then Stop (cancel_fn src s) Complete
      else (case step_fn src s of
          Yield v s1 \<Rightarrow> Yield v (Taking (k - 1) s1)
        | Skip ls s1 \<Rightarrow> Skip ls (Taking k s1)
        | Stop ls t \<Rightarrow> Stop ls t))"
  "cancel_fn (take_op n src) Not_subscribed = []"
  "cancel_fn (take_op n src) (Taking k s) = cancel_fn src s"
  by (simp_all add: take_op_def)


lemma probe_sel:
  "state (probe l src) = (False, state src)"
  "step_fn (probe l src) (False, s) = Skip [l] (True, s)"
  "step_fn (probe l src) (True, s) =
     (case step_fn src s of
        Yield v s1 \<Rightarrow> Yield v (False, s1)
      | Skip ls s1 \<Rightarrow> Skip ls (True, s1)
      | Stop ls t \<Rightarrow> Stop ls t)"
  "cancel_fn (probe l src) (asked, s) = cancel_fn src s"
  by (simp_all add: probe_def)

lemma do_finally_sel:
  "state (do_finally fn src) = state src"
  "step_fn (do_finally fn src) s =
     (case step_fn src s of
        Yield v s1 \<Rightarrow> Yield v s1
      | Skip ls s1 \<Rightarrow> Skip ls s1
      | Stop ls t \<Rightarrow> Stop (ls @ [fn]) t)"
  "cancel_fn (do_finally fn src) s = cancel_fn src s @ [fn]"
  by (simp_all add: do_finally_def)

lemma flat_map_sel:
  "state (flat_map f src) = (state src, None)"
  "step_fn (flat_map f src) (s, None) =
     (case step_fn src s of
        Yield x s1 \<Rightarrow> Skip [] (s1, Some (f x))
      | Skip ls s1 \<Rightarrow> Skip ls (s1, None)
      | Stop ls t \<Rightarrow> Stop ls t)"
  "step_fn (flat_map f src) (s, Some p) =
     (case step_fn p (state p) of
        Yield v q \<Rightarrow> Yield v (s, Some (p\<lparr>state := q\<rparr>))
      | Skip ls q \<Rightarrow> Skip ls (s, Some (p\<lparr>state := q\<rparr>))
      | Stop ls Complete \<Rightarrow> Skip ls (s, None)
      | Stop ls (Error ec) \<Rightarrow> Stop (ls @ cancel_fn src s) (Error ec))"
  "cancel_fn (flat_map f src) (s, inner) =
     (case inner of None \<Rightarrow> [] | Some p \<Rightarrow> cancel_fn p (state p)) @ cancel_fn src s"
  by (simp_all add: flat_map_def)

lemma map_op_sel:
  "state (map_op f src) = state src"
  "step_fn (map_op f src) s =
     (case step_fn src s of
        Yield v s1 \<Rightarrow> Yield (f v) s1
      | Skip ls s1 \<Rightarrow> Skip ls s1
      | Stop ls t \<Rightarrow> Stop ls t)"
  "cancel_fn (map_op f src) s = cancel_fn src s"
  by (simp_all add: map_op_def)

lemma merge_pub_sel:
  "state (merge_pub ps) = ps"
  "step_fn (merge_pub ps) [] = Stop [] Complete"
  "step_fn (merge_pub ps) (p # rest) =
     (case step_fn p (state p) of
        Yield v q \<Rightarrow> Yield v (p\<lparr>state := q\<rparr> # rest)
      | Skip ls q \<Rightarrow> Skip ls (p\<lparr>state := q\<rparr> # rest)
      | Stop ls Complete \<Rightarrow> Skip ls rest
      | Stop ls (Error ec) \<Rightarrow> Stop ls (Error ec))"
  "cancel_fn (merge_pub ps) [] = []"
  "cancel_fn (merge_pub ps) (p # rest) = cancel_fn p (state p)"
  by (simp_all add: merge_pub_def)

lemmas source_sel = empty_pub_sel error_pub_sel of_pub_sel range_pub_sel

lemmas run_eval = process_def request_then_cancel_def eval_nat_numeral

subsection \<open>The scenarios of \<^verbatim>\<open>streams_test.cpp\<close>\<close>

text \<open>
  The tests \<^verbatim>\<open>empty\<close>, \<^verbatim>\<open>of\<close>, \<^verbatim>\<open>range\<close>, \<^verbatim>\<open>map\<close>, \<^verbatim>\<open>head\<close>, \<^verbatim>\<open>take\<close> and \<^verbatim>\<open>merge\<close>, on the model.
\<close>

lemma test_empty: "process 1 (empty_pub :: (unit, int) publisher) = Some [Seen On_complete]"
  by (simp add: run_eval source_sel)

lemma test_of:
  "process 4 (of_pub [3, 1, 2 :: int]) =
     Some [Seen (On_next 3), Seen (On_next 1), Seen (On_next 2), Seen On_complete]"
  by (simp add: run_eval source_sel)

lemma test_range:
  "process 4 (range_pub 0 3) =
     Some [Seen (On_next 0), Seen (On_next 1), Seen (On_next 2), Seen On_complete]"
  by (simp add: run_eval source_sel)

lemma test_map:
  "process 4 (map_op (\<lambda>i. i * i) (range_pub 2 5)) =
     Some [Seen (On_next 4), Seen (On_next 9), Seen (On_next 16), Seen On_complete]"
  by (simp add: run_eval source_sel map_op_sel)

lemma test_head:
  "process 2 (head_op (range_pub 3 300000000)) = Some [Seen (On_next 3), Seen On_complete]"
  by (simp add: run_eval source_sel head_op_def take_op_sel)

lemma test_take:
  "process 5 (take_op 4 (range_pub 2 300000000)) =
     Some [Seen (On_next 2), Seen (On_next 3), Seen (On_next 4), Seen (On_next 5),
           Seen On_complete]"
  by (simp add: run_eval source_sel take_op_sel)

lemma test_merge:
  "process 8 (merge_pub [range_pub 1 3, range_pub 3 6]) =
     Some [Seen (On_next 1), Seen (On_next 2), Seen (On_next 3), Seen (On_next 4),
           Seen (On_next 5), Seen On_complete]"
  by (simp add: run_eval source_sel merge_pub_sel)

subsection \<open>Runs\<close>



lemma process_from_mono:
  "process_from n p s = Some tr \<Longrightarrow> process_from (n + k) p s = Some tr"
proof (induction n arbitrary: s tr)
  case 0
  then show ?case by simp
next
  case (Suc n)
  then show ?case
    by (cases "step_fn p s") auto
qed


subsection \<open>\<^verbatim>\<open>do_finally\<close>\<close>



















text \<open>The tests \<^verbatim>\<open>on_finally_empty\<close> and \<^verbatim>\<open>on_finally_error\<close>.\<close>

lemma on_finally_empty:
  "process 1 (do_finally 7 empty_pub) = Some [Ran 7, Seen On_complete]"
  by (simp add: run_eval source_sel do_finally_sel)

lemma on_finally_error:
  "process 1 (do_finally 7 (error_pub Errc_not_supported)) =
     Some [Ran 7, Seen (On_error Errc_not_supported)]"
  by (simp add: run_eval source_sel do_finally_sel)



subsection \<open>\<^verbatim>\<open>flat_map\<close>\<close>

lemma seen_values_Cons:
  "Seen (On_next v) # r = map (\<lambda>v. Seen (On_next v)) ys @ [Seen On_complete] \<longleftrightarrow>
     (\<exists>ys'. ys = v # ys' \<and> r = map (\<lambda>v. Seen (On_next v)) ys' @ [Seen On_complete])"
  by (cases ys) auto

lemma seen_values_Ran:
  "map Ran ls @ r = map (\<lambda>v. Seen (On_next v)) ys @ [Seen On_complete] \<Longrightarrow> ls = []"
  by (cases ls; cases ys) auto

lemma map_Ran_eq_seen:
  "map Ran ls = map (\<lambda>v. Seen (On_next v)) ys \<longleftrightarrow> ls = [] \<and> ys = []"
  by (cases ls; cases ys) auto

lemma signal_of_complete: "signal_of t = (On_complete :: 'a signal) \<longleftrightarrow> t = Complete"
  by (cases t) auto

text \<open>
  With an inner publisher current, \<^verbatim>\<open>flat_map\<close> gives the inner values up to the inner
  completion and then goes on as it does with no inner publisher.
\<close>

lemma flat_map_drains_inner:
  "process_from n q iq = Some (map (\<lambda>v. Seen (On_next v)) ys @ [Seen On_complete]) \<Longrightarrow>
   process_from m (flat_map f src) (s, None) = Some rest \<Longrightarrow>
     process_from (n + m) (flat_map f src) (s, Some (q\<lparr>state := iq\<rparr>)) =
       Some (map (\<lambda>v. Seen (On_next v)) ys @ rest)"
proof (induction n arbitrary: iq ys)
  case 0
  then show ?case by simp
next
  case (Suc n)
  show ?case
  proof (cases "step_fn q iq")
    case (Yield v i')
    with Suc.prems(1) obtain tr where tr: "process_from n q i' = Some tr"
      and eq: "Seen (On_next v) # tr = map (\<lambda>v. Seen (On_next v)) ys @ [Seen On_complete]"
      by auto
    from eq obtain ys' where ys: "ys = v # ys'"
      and tr': "tr = map (\<lambda>v. Seen (On_next v)) ys' @ [Seen On_complete]"
      by (auto simp: seen_values_Cons)
    from Suc.IH [OF _ Suc.prems(2), of i' ys'] tr tr' Yield ys show ?thesis
      by (simp add: flat_map_sel)
  next
    case (Skip ls i')
    with Suc.prems(1) obtain tr where tr: "process_from n q i' = Some tr"
      and eq: "map Ran ls @ tr = map (\<lambda>v. Seen (On_next v)) ys @ [Seen On_complete]"
      by auto
    from seen_values_Ran [OF eq] have ls: "ls = []" .
    from Suc.IH [OF _ Suc.prems(2), of i' ys] tr eq ls Skip show ?thesis
      by (simp add: flat_map_sel)
  next
    case (Stop ls t)
    with Suc.prems(1) have "ls = []" "ys = []" "t = Complete"
      by (simp_all add: map_Ran_eq_seen signal_of_complete)
    with Stop process_from_mono [OF Suc.prems(2), of n] show ?thesis
      by (simp add: flat_map_sel add.commute)
  qed
qed

lemma flat_map_sequential_from:
  "process_from n src s = Some (map (\<lambda>v. Seen (On_next v)) xs @ [Seen On_complete]) \<Longrightarrow>
   \<forall>x \<in> set xs. yields (f x) (g x) \<Longrightarrow>
     \<exists>m. process_from m (flat_map f src) (s, None) =
       Some (map (\<lambda>v. Seen (On_next v)) (concat (map g xs)) @ [Seen On_complete])"
proof (induction n arbitrary: s xs)
  case 0
  then show ?case by simp
next
  case (Suc n)
  show ?case
  proof (cases "step_fn src s")
    case (Yield x s1)
    with Suc.prems(1) obtain tr where tr: "process_from n src s1 = Some tr"
      and eq: "Seen (On_next x) # tr = map (\<lambda>v. Seen (On_next v)) xs @ [Seen On_complete]"
      by auto
    from eq obtain xs' where xs: "xs = x # xs'"
      and tr': "tr = map (\<lambda>v. Seen (On_next v)) xs' @ [Seen On_complete]"
      by (auto simp: seen_values_Cons)
    from Suc.prems(2) xs have inner: "yields (f x) (g x)" and rest: "\<forall>x \<in> set xs'. yields (f x) (g x)"
      by simp_all
    from Suc.IH [OF _ rest, of s1] tr tr' obtain m where
      m: "process_from m (flat_map f src) (s1, None) =
        Some (map (\<lambda>v. Seen (On_next v)) (concat (map g xs')) @ [Seen On_complete])"
      by auto
    from inner obtain k where
      k: "process_from k (f x) (state (f x)) =
        Some (map (\<lambda>v. Seen (On_next v)) (g x) @ [Seen On_complete])"
      by (auto simp: yields_def process_def)
    from flat_map_drains_inner [OF k m] have
      "process_from (k + m) (flat_map f src) (s1, Some (f x)) =
        Some (map (\<lambda>v. Seen (On_next v)) (g x) @
          map (\<lambda>v. Seen (On_next v)) (concat (map g xs')) @ [Seen On_complete])"
      by simp
    with Yield xs have "process_from (Suc (k + m)) (flat_map f src) (s, None) =
        Some (map (\<lambda>v. Seen (On_next v)) (concat (map g xs)) @ [Seen On_complete])"
      by (simp add: flat_map_sel)
    then show ?thesis by blast
  next
    case (Skip ls s1)
    with Suc.prems(1) obtain tr where tr: "process_from n src s1 = Some tr"
      and eq: "map Ran ls @ tr = map (\<lambda>v. Seen (On_next v)) xs @ [Seen On_complete]"
      by auto
    from seen_values_Ran [OF eq] have ls: "ls = []" .
    from Suc.IH [OF _ Suc.prems(2), of s1] tr eq ls obtain m where
      "process_from m (flat_map f src) (s1, None) =
        Some (map (\<lambda>v. Seen (On_next v)) (concat (map g xs)) @ [Seen On_complete])"
      by auto
    with Skip ls have "process_from (Suc m) (flat_map f src) (s, None) =
        Some (map (\<lambda>v. Seen (On_next v)) (concat (map g xs)) @ [Seen On_complete])"
      by (simp add: flat_map_sel)
    then show ?thesis by blast
  next
    case (Stop ls t)
    with Suc.prems(1) have "ls = []" "xs = []" "t = Complete"
      by (simp_all add: map_Ran_eq_seen signal_of_complete)
    with Stop have "process_from (Suc 0) (flat_map f src) (s, None) =
        Some (map (\<lambda>v. Seen (On_next v)) (concat (map g xs)) @ [Seen On_complete])"
      by (simp add: flat_map_sel)
    then show ?thesis by blast
  qed
qed

text \<open>
  While an inner publisher is current, \<^verbatim>\<open>flat_map\<close> does not turn to the outer one: a step
  leaves the outer state as it is, and the inner publisher goes only when it has completed.
\<close>

lemma flat_map_holds_outer:
  "step_fn (flat_map f src) (s, Some p) = Yield v (s', inner) \<Longrightarrow> s' = s \<and> inner \<noteq> None"
  "step_fn (flat_map f src) (s, Some p) = Skip ls (s', inner) \<Longrightarrow>
     s' = s \<and> (inner = None \<longrightarrow> step_fn p (state p) = Stop ls Complete)"
  by (auto simp: flat_map_sel split: step.splits outcome.splits)

lemma flat_map_leaves_outer:
  "step_fn (flat_map f (src\<lparr>step_fn := other\<rparr>)) (s, Some p) =
     step_fn (flat_map f src) (s, Some p)"
  by (cases "step_fn p (state p)") (auto simp: flat_map_sel split: outcome.splits)

text \<open>
  The same with a probe on the outer publisher, which shows each request that \<^verbatim>\<open>flat_map\<close>
  makes of it: after a request, the values of the inner publisher of the value that came,
  all of them, and only then the next request.
\<close>

lemma flat_map_probe_from:
  "process_from n src s = Some (map (\<lambda>v. Seen (On_next v)) xs @ [Seen On_complete]) \<Longrightarrow>
   \<forall>x \<in> set xs. yields (f x) (g x) \<Longrightarrow>
     \<exists>m. process_from m (flat_map f (probe l src)) ((True, s), None) =
       Some (concat (map (\<lambda>x. map (\<lambda>v. Seen (On_next v)) (g x) @ [Ran l]) xs) @
         [Seen On_complete])"
proof (induction n arbitrary: s xs)
  case 0
  then show ?case by simp
next
  case (Suc n)
  let ?fm = "flat_map f (probe l src)"
  show ?case
  proof (cases "step_fn src s")
    case (Yield x s1)
    with Suc.prems(1) obtain tr where tr: "process_from n src s1 = Some tr"
      and eq: "Seen (On_next x) # tr = map (\<lambda>v. Seen (On_next v)) xs @ [Seen On_complete]"
      by auto
    from eq obtain xs' where xs: "xs = x # xs'"
      and tr': "tr = map (\<lambda>v. Seen (On_next v)) xs' @ [Seen On_complete]"
      by (auto simp: seen_values_Cons)
    from Suc.prems(2) xs have inner: "yields (f x) (g x)"
      and rest: "\<forall>x \<in> set xs'. yields (f x) (g x)"
      by simp_all
    from Suc.IH [OF _ rest, of s1] tr tr' obtain m where
      "process_from m ?fm ((True, s1), None) =
        Some (concat (map (\<lambda>x. map (\<lambda>v. Seen (On_next v)) (g x) @ [Ran l]) xs') @
          [Seen On_complete])"
      by auto
    then have m: "process_from (Suc m) ?fm ((False, s1), None) =
        Some (Ran l # concat (map (\<lambda>x. map (\<lambda>v. Seen (On_next v)) (g x) @ [Ran l]) xs') @
          [Seen On_complete])"
      by (simp add: flat_map_sel probe_sel)
    from inner obtain k where
      k: "process_from k (f x) (state (f x)) =
        Some (map (\<lambda>v. Seen (On_next v)) (g x) @ [Seen On_complete])"
      by (auto simp: yields_def process_def)
    from flat_map_drains_inner [OF k m] have
      "process_from (k + Suc m) ?fm ((False, s1), Some (f x)) =
        Some (map (\<lambda>v. Seen (On_next v)) (g x) @
          Ran l # concat (map (\<lambda>x. map (\<lambda>v. Seen (On_next v)) (g x) @ [Ran l]) xs') @
          [Seen On_complete])"
      by simp
    with Yield xs have "process_from (Suc (k + Suc m)) ?fm ((True, s), None) =
        Some (concat (map (\<lambda>x. map (\<lambda>v. Seen (On_next v)) (g x) @ [Ran l]) xs) @
          [Seen On_complete])"
      by (simp add: flat_map_sel probe_sel)
    then show ?thesis by blast
  next
    case (Skip ls s1)
    with Suc.prems(1) obtain tr where tr: "process_from n src s1 = Some tr"
      and eq: "map Ran ls @ tr = map (\<lambda>v. Seen (On_next v)) xs @ [Seen On_complete]"
      by auto
    from seen_values_Ran [OF eq] have ls: "ls = []" .
    from Suc.IH [OF _ Suc.prems(2), of s1] tr eq ls obtain m where
      "process_from m ?fm ((True, s1), None) =
        Some (concat (map (\<lambda>x. map (\<lambda>v. Seen (On_next v)) (g x) @ [Ran l]) xs) @
          [Seen On_complete])"
      by auto
    with Skip ls have "process_from (Suc m) ?fm ((True, s), None) =
        Some (concat (map (\<lambda>x. map (\<lambda>v. Seen (On_next v)) (g x) @ [Ran l]) xs) @
          [Seen On_complete])"
      by (simp add: flat_map_sel probe_sel)
    then show ?thesis by blast
  next
    case (Stop ls t)
    with Suc.prems(1) have "ls = []" "xs = []" "t = Complete"
      by (simp_all add: map_Ran_eq_seen signal_of_complete)
    with Stop have "process_from (Suc 0) ?fm ((True, s), None) =
        Some (concat (map (\<lambda>x. map (\<lambda>v. Seen (On_next v)) (g x) @ [Ran l]) xs) @
          [Seen On_complete])"
      by (simp add: flat_map_sel probe_sel)
    then show ?thesis by blast
  qed
qed

lemma requests_between:
  "Ran l # concat (map (\<lambda>x. map (\<lambda>v. Seen (On_next v)) (g x) @ [Ran l]) xs) @ [e] =
     concat (map (\<lambda>x. Ran l # map (\<lambda>v. Seen (On_next v)) (g x)) xs) @ [Ran l, e]"
  by (induction xs) simp_all

text \<open>
  C2. If the outer publisher gives the values \<open>xs\<close> and completes, and for each of them the
  inner publisher \<open>f x\<close> gives the values \<open>g x\<close> and completes, then \<^verbatim>\<open>flat_map\<close> gives the
  inner sequences one after the other, in the order of \<open>xs\<close>, and completes. It asks the
  outer publisher for its next value only when the inner one has been drained: with a probe
  on the outer publisher the run shows a request, all the values of the inner publisher of
  the value that came, the next request, and so on up to the request that the outer
  publisher answers with its completion. In any state with an inner publisher current, a
  step of \<^verbatim>\<open>flat_map\<close> does not ask the outer publisher: it is the same step whatever the
  outer publisher would answer. Two runs under \<^verbatim>\<open>process\<close>:
  \<^verbatim>\<open>range(1,4) >> flat_map(i -> range(0,i))\<close> gives 0, 0, 1, 0, 1, 2 and \<^verbatim>\<open>on_complete\<close>, in
  13 steps and with any more fuel; and \<^verbatim>\<open>head()\<close> of \<^verbatim>\<open>flat_map\<close> on an outer range of
  300 million values has the first inner value and completes in 3 steps, having asked the
  outer publisher once.
\<close>

theorem flat_map_sequential:
  "(yields src xs \<and> (\<forall>x \<in> set xs. yields (f x) (g x)) \<longrightarrow>
      yields (flat_map f src) (concat (map g xs)) \<and>
      emits (flat_map f (probe l src))
        (concat (map (\<lambda>x. Ran l # map (\<lambda>v. Seen (On_next v)) (g x)) xs) @
           [Ran l, Seen On_complete])) \<and>
   step_fn (flat_map f (src\<lparr>step_fn := other\<rparr>)) (s, Some p) =
     step_fn (flat_map f src) (s, Some p) \<and>
   process (13 + n) (flat_map (\<lambda>i. range_pub 0 i) (range_pub 1 4)) =
     Some [Seen (On_next 0), Seen (On_next 0), Seen (On_next 1),
           Seen (On_next 0), Seen (On_next 1), Seen (On_next 2), Seen On_complete] \<and>
   process (3 + n) (head_op (flat_map (\<lambda>i. range_pub 0 i) (range_pub 1 300000000))) =
     Some [Seen (On_next 0), Seen On_complete] \<and>
   process (4 + n)
       (head_op (flat_map (\<lambda>i. range_pub 0 i) (probe l (range_pub 1 300000000)))) =
     Some [Ran l, Seen (On_next 0), Seen On_complete]"
proof (intro conjI impI)
  assume a: "yields src xs \<and> (\<forall>x \<in> set xs. yields (f x) (g x))"
  then obtain k where k: "process_from k src (state src) =
      Some (map (\<lambda>v. Seen (On_next v)) xs @ [Seen On_complete])"
    by (auto simp: yields_def process_def)
  from a have inner: "\<forall>x \<in> set xs. yields (f x) (g x)" by simp
  from flat_map_sequential_from [OF k inner] obtain m where
    "process_from m (flat_map f src) (state src, None) =
      Some (map (\<lambda>v. Seen (On_next v)) (concat (map g xs)) @ [Seen On_complete])"
    by blast
  then have "process m (flat_map f src) =
      Some (map (\<lambda>v. Seen (On_next v)) (concat (map g xs)) @ [Seen On_complete])"
    by (simp add: process_def flat_map_sel)
  then show "yields (flat_map f src) (concat (map g xs))"
    unfolding yields_def by blast
  from flat_map_probe_from [OF k inner, of l] obtain m where
    "process_from m (flat_map f (probe l src)) ((True, state src), None) =
      Some (concat (map (\<lambda>x. map (\<lambda>v. Seen (On_next v)) (g x) @ [Ran l]) xs) @
        [Seen On_complete])"
    by blast
  then have "process (Suc m) (flat_map f (probe l src)) =
      Some (Ran l # concat (map (\<lambda>x. map (\<lambda>v. Seen (On_next v)) (g x) @ [Ran l]) xs) @
        [Seen On_complete])"
    by (simp add: process_def flat_map_sel probe_sel)
  then have "process (Suc m) (flat_map f (probe l src)) =
      Some (concat (map (\<lambda>x. Ran l # map (\<lambda>v. Seen (On_next v)) (g x)) xs) @
        [Ran l, Seen On_complete])"
    by (simp only: requests_between)
  then show "emits (flat_map f (probe l src))
      (concat (map (\<lambda>x. Ran l # map (\<lambda>v. Seen (On_next v)) (g x)) xs) @
         [Ran l, Seen On_complete])"
    unfolding emits_def by blast
next
  show "step_fn (flat_map f (src\<lparr>step_fn := other\<rparr>)) (s, Some p) =
      step_fn (flat_map f src) (s, Some p)"
    by (rule flat_map_leaves_outer)
next
  have "process_from 13 (flat_map (\<lambda>i. range_pub 0 i) (range_pub 1 4))
      (state (flat_map (\<lambda>i. range_pub 0 i) (range_pub 1 4))) =
     Some [Seen (On_next 0), Seen (On_next 0), Seen (On_next 1),
           Seen (On_next 0), Seen (On_next 1), Seen (On_next 2), Seen On_complete]"
    by (simp add: source_sel flat_map_sel eval_nat_numeral)
  from process_from_mono [OF this, of n]
  show "process (13 + n) (flat_map (\<lambda>i. range_pub 0 i) (range_pub 1 4)) =
     Some [Seen (On_next 0), Seen (On_next 0), Seen (On_next 1),
           Seen (On_next 0), Seen (On_next 1), Seen (On_next 2), Seen On_complete]"
    by (simp add: process_def)
next
  let ?h = "head_op (flat_map (\<lambda>i. range_pub 0 i) (range_pub 1 300000000))"
  have "process_from 3 ?h (state ?h) = Some [Seen (On_next 0), Seen On_complete]"
    by (simp add: source_sel flat_map_sel head_op_def take_op_sel eval_nat_numeral)
  from process_from_mono [OF this, of n]
  show "process (3 + n) ?h = Some [Seen (On_next 0), Seen On_complete]"
    by (simp add: process_def)
next
  let ?h = "head_op (flat_map (\<lambda>i. range_pub 0 i) (probe l (range_pub 1 300000000)))"
  have "process_from 4 ?h (state ?h) = Some [Ran l, Seen (On_next 0), Seen On_complete]"
    by (simp add: source_sel flat_map_sel probe_sel head_op_def take_op_sel eval_nat_numeral)
  from process_from_mono [OF this, of n]
  show "process (4 + n) ?h = Some [Ran l, Seen (On_next 0), Seen On_complete]"
    by (simp add: process_def)
qed

lemma yields_range_1_4: "yields (range_pub 1 4) [1, 2, 3]"
  unfolding yields_def by (rule exI [of _ 4]) (simp add: run_eval source_sel)

lemma yields_range_0:
  "yields (range_pub 0 1) [0]" "yields (range_pub 0 2) [0, 1]" "yields (range_pub 0 3) [0, 1, 2]"
  unfolding yields_def
  by (rule exI [of _ 4], simp add: run_eval source_sel)+

theorem flat_map_sequential_witness:
  "yields (range_pub 1 4) [1, 2, 3] \<and>
   yields (range_pub 0 1) [0] \<and> yields (range_pub 0 2) [0, 1] \<and>
   yields (range_pub 0 3) [0, 1, 2] \<and>
   yields (flat_map (\<lambda>i. range_pub 0 i) (range_pub 1 4)) [0, 0, 1, 0, 1, 2] \<and>
   emits (flat_map (\<lambda>i. range_pub 0 i) (probe 9 (range_pub 1 4)))
     [Ran 9, Seen (On_next 0),
      Ran 9, Seen (On_next 0), Seen (On_next 1),
      Ran 9, Seen (On_next 0), Seen (On_next 1), Seen (On_next 2),
      Ran 9, Seen On_complete]"
proof -
  have inner: "\<forall>x \<in> set [1, 2, 3]. yields (range_pub 0 x) [0..x - 1]"
    using yields_range_0 by (simp add: upto_rec1)
  from flat_map_sequential [where src = "range_pub 1 4" and xs = "[1, 2, 3]"
      and f = "\<lambda>i. range_pub 0 i" and g = "\<lambda>x. [0..x - 1]" and l = 9]
    yields_range_1_4 inner
  have "yields (flat_map (\<lambda>i. range_pub 0 i) (range_pub 1 4))
      (concat (map (\<lambda>x. [0..x - 1]) [1, 2, 3])) \<and>
    emits (flat_map (\<lambda>i. range_pub 0 i) (probe 9 (range_pub 1 4)))
      (concat (map (\<lambda>x. Ran 9 # map (\<lambda>v. Seen (On_next v)) [0..x - 1]) [1, 2, 3]) @
         [Ran 9, Seen On_complete])"
    by blast
  then have "yields (flat_map (\<lambda>i. range_pub 0 i) (range_pub 1 4)) [0, 0, 1, 0, 1, 2] \<and>
    emits (flat_map (\<lambda>i. range_pub 0 i) (probe 9 (range_pub 1 4)))
     [Ran 9, Seen (On_next 0),
      Ran 9, Seen (On_next 0), Seen (On_next 1),
      Ran 9, Seen (On_next 0), Seen (On_next 1), Seen (On_next 2),
      Ran 9, Seen On_complete]"
    by (simp add: upto_rec1)
  with yields_range_1_4 yields_range_0 show ?thesis by blast
qed

section \<open>Properties of the network frames\<close>

subsection \<open>Base64 decodes what it encoded\<close>

lemma of_char_less_256: "(of_char c :: nat) < 256"
proof -
  have "(of_char c :: nat) mod 256 < 256" by simp
  then show ?thesis by (simp only: of_char_mod_256)
qed

lemma char_of_eq: "(n :: nat) < 256 \<Longrightarrow> char_of n = c \<longleftrightarrow> n = of_char c"
proof
  assume "n < 256" "char_of n = c"
  then have "of_char (char_of n :: char) = (of_char c :: nat)" by simp
  with \<open>n < 256\<close> show "n = of_char c" by simp
next
  assume "n = of_char c"
  then show "char_of n = c" by simp
qed

lemma b64_value_char: "n < 64 \<Longrightarrow> b64_value (b64_char n) = n"
  unfolding b64_value_def b64_char_def Let_def
  by (simp split: if_splits) arith

lemma b64_char_not_pad: "n < 64 \<Longrightarrow> b64_char n \<noteq> CHR ''=''"
proof
  assume n: "n < 64" and "b64_char n = CHR ''=''"
  then have "(of_char (b64_char n) :: nat) = of_char (CHR ''='')" by simp
  with n show False
    by (simp add: b64_char_def split: if_splits)
qed

lemma sextets:
  fixes x y z :: nat
  assumes "x < 256" "y < 256" "z < 256"
  shows "x div 4 < 64" "x mod 4 * 16 < 64" "x mod 4 * 16 + y div 16 < 64"
    "y mod 16 * 4 < 64" "y mod 16 * 4 + z div 64 < 64" "z mod 64 < 64"
  using assms by auto

lemma octets:
  fixes x y z :: nat
  assumes "x < 256" "y < 256" "z < 256"
  shows "x div 4 * 4 + x mod 4 * 16 div 16 = x"
    "x div 4 * 4 + (x mod 4 * 16 + y div 16) div 16 = x"
    "(x mod 4 * 16 + y div 16) mod 16 * 16 + y mod 16 * 4 div 4 = y"
    "(x mod 4 * 16 + y div 16) mod 16 * 16 + (y mod 16 * 4 + z div 64) div 4 = y"
    "(y mod 16 * 4 + z div 64) mod 4 * 64 + z mod 64 = z"
  using assms by auto

lemma decode64_encode64: "decode64 (encode64 s) = s"
proof (induction s rule: encode64.induct)
  case 1
  then show ?case by simp
next
  case (2 a)
  note b = of_char_less_256 [of a]
  from sextets(1,2) [OF b b b] octets(1) [OF b b b] show ?case
    by (simp add: Let_def b64_value_char b64_char_not_pad)
next
  case (3 a b)
  note x = of_char_less_256 [of a] and y = of_char_less_256 [of b]
  from sextets(1,3,4) [OF x y y] octets(2,3) [OF x y y] show ?case
    by (simp add: Let_def b64_value_char b64_char_not_pad)
next
  case (4 a b c rest)
  note x = of_char_less_256 [of a] and y = of_char_less_256 [of b]
    and z = of_char_less_256 [of c]
  from sextets(1,3,5,6) [OF x y z] octets(2,4,5) [OF x y z] "4.IH" show ?case
    by (simp add: Let_def b64_value_char b64_char_not_pad)
qed

subsection \<open>The fragments\<close>

lemma concat_chunks_of: "concat (chunks_of cap s) = s"
proof (induction cap s rule: chunks_of.induct)
  case (1 cap s)
  show ?case
  proof (cases "cap = 0 \<or> length s \<le> cap")
    case True
    then show ?thesis by (subst chunks_of.simps) simp
  next
    case False
    with "1.IH" show ?thesis by (subst chunks_of.simps) simp
  qed
qed

lemma chunks_of_not_Nil: "chunks_of cap s \<noteq> []"
  by (subst chunks_of.simps) simp

lemma chunks_of_bounded: "0 < cap \<Longrightarrow> part \<in> set (chunks_of cap s) \<Longrightarrow> length part \<le> cap"
proof (induction cap s rule: chunks_of.induct)
  case (1 cap s)
  show ?case
  proof (cases "cap = 0 \<or> length s \<le> cap")
    case True
    from "1.prems"(2) have "part \<in> set [s]"
      using True by (subst (asm) chunks_of.simps) simp
    with True "1.prems"(1) show ?thesis by simp
  next
    case False
    from "1.prems"(2) have "part \<in> set (take cap s # chunks_of cap (drop cap s))"
      using False by (subst (asm) chunks_of.simps) simp
    with False "1.IH" "1.prems"(1) show ?thesis by auto
  qed
qed

lemma map_chunk_numbered:
  "map chunk (map (\<lambda>(i, part). \<lparr>base64_data = part, nf_id = fid, nf_t = t,
        chunk = Suc i, chunks = n\<rparr>) xs) = map Suc (map fst xs)"
  by (induction xs) auto

lemma map_base64_data_numbered:
  "map base64_data (map (\<lambda>(i, part). \<lparr>base64_data = part, nf_id = fid, nf_t = t,
        chunk = Suc i, chunks = n\<rparr>) xs) = map snd xs"
  by (induction xs) auto

lemma to_network_capped_length:
  "length (to_network_capped cap f t) = length (chunks_of cap (encode64 (ef_data f)))"
  by (simp add: to_network_capped_def Let_def)

lemma to_network_capped_chunk:
  "map chunk (to_network_capped cap f t) = [1..<Suc (length (to_network_capped cap f t))]"
proof -
  let ?parts = "chunks_of cap (encode64 (ef_data f))"
  have "map chunk (to_network_capped cap f t) = map Suc (map fst (enumerate 0 ?parts))"
    unfolding to_network_capped_def Let_def by (rule map_chunk_numbered)
  also have "\<dots> = map Suc [0..<length ?parts]"
    by (simp only: map_fst_enumerate add_0)
  also have "\<dots> = [Suc 0..<Suc (length ?parts)]"
    by (rule map_Suc_upt)
  finally show ?thesis by (simp only: to_network_capped_length One_nat_def)
qed

lemma to_network_capped_text:
  "map base64_data (to_network_capped cap f t) = chunks_of cap (encode64 (ef_data f))"
proof -
  let ?parts = "chunks_of cap (encode64 (ef_data f))"
  have "map base64_data (to_network_capped cap f t) = map snd (enumerate 0 ?parts)"
    unfolding to_network_capped_def Let_def by (rule map_base64_data_numbered)
  then show ?thesis by (simp only: map_snd_enumerate)
qed

lemma to_network_capped_stamp:
  "nf \<in> set (to_network_capped cap f t) \<Longrightarrow>
     chunks nf = length (to_network_capped cap f t) \<and> nf_t nf = t \<and> nf_id nf = ef_id f"
  by (auto simp: to_network_capped_def Let_def)

text \<open>
  C4. For every encoded frame and time, \<^verbatim>\<open>to_network\<close> returns at least one network
  frame; the base64 text of each is at most 65000 bytes; their \<open>chunk\<close> fields are
  1, 2, ... up to their number \<open>N\<close>; each has \<open>chunks = N\<close>, the time and the frame's id.
\<close>

theorem to_network_chunks:
  "1 \<le> length (to_network f t) \<and>
   (\<forall>nf \<in> set (to_network f t).
      length (base64_data nf) \<le> 65000 \<and> chunks nf = length (to_network f t) \<and>
      nf_t nf = t \<and> nf_id nf = ef_id f) \<and>
   map chunk (to_network f t) = [1..<Suc (length (to_network f t))]"
proof -
  have "length (base64_data nf) \<le> 65000" if "nf \<in> set (to_network f t)" for nf
  proof -
    from that have "base64_data nf \<in> set (map base64_data (to_network_capped 65000 f t))"
      by (simp add: to_network_def max_payload_size_def)
    then have "base64_data nf \<in> set (chunks_of 65000 (encode64 (ef_data f)))"
      by (simp only: to_network_capped_text)
    then show ?thesis by (rule chunks_of_bounded [rotated]) simp
  qed
  moreover have "1 \<le> length (to_network f t)"
    using chunks_of_not_Nil [of max_payload_size "encode64 (ef_data f)"]
    by (simp add: to_network_def to_network_capped_length Suc_le_eq)
  moreover have "map chunk (to_network f t) = [1..<Suc (length (to_network f t))]"
    unfolding to_network_def by (rule to_network_capped_chunk)
  moreover have "chunks nf = length (to_network f t) \<and> nf_t nf = t \<and> nf_id nf = ef_id f"
    if "nf \<in> set (to_network f t)" for nf
    using that unfolding to_network_def by (rule to_network_capped_stamp)
  ultimately show ?thesis by blast
qed

lemmas network_eval =
  to_network_def to_network_capped_def max_payload_size_def chunks_of.simps enumerate_eq_zip
  Let_def b64_char_def char_of_eq

theorem to_network_chunks_witness:
  "to_network \<lparr>ef_data = ''abc'', ef_id = \<lparr>i1 = 0, i2 = 10\<rparr>\<rparr> 5 =
     [\<lparr>base64_data = ''YWJj'', nf_id = \<lparr>i1 = 0, i2 = 10\<rparr>, nf_t = 5, chunk = 1, chunks = 1\<rparr>] \<and>
   length ''YWJj'' \<le> (65000 :: nat)"
proof -
  have e: "to_network \<lparr>ef_data = ''abc'', ef_id = \<lparr>i1 = 0, i2 = 10\<rparr>\<rparr> 5 =
     [\<lparr>base64_data = ''YWJj'', nf_id = \<lparr>i1 = 0, i2 = 10\<rparr>, nf_t = 5, chunk = 1, chunks = 1\<rparr>]"
    by (simp add: network_eval)
  from to_network_chunks [of "\<lparr>ef_data = ''abc'', ef_id = \<lparr>i1 = 0, i2 = 10\<rparr>\<rparr>" 5] e
  show ?thesis by simp
qed


subsection \<open>The fragments are the base64 texts of pieces of the payload\<close>

text \<open>
  Cutting the text every 65000 characters is cutting the payload every 48750 bytes and
  encoding each piece: 48750 is a multiple of 3, so no piece but the last is padded.
\<close>

lemma length_encode64: "length (encode64 d) = 4 * ((length d + 2) div 3)"
proof (induction d rule: encode64.induct)
  case (4 a b c rest)
  from "4.IH" [OF refl refl refl] have "length (encode64 rest) = 4 * ((length rest + 2) div 3)" .
  moreover have "(length (a # b # c # rest) + 2) div 3 = (length rest + 2) div 3 + 1"
    by simp
  ultimately show ?case by (simp add: Let_def)
qed (simp_all add: Let_def)

lemma encode64_triples:
  "length a = 3 * k \<Longrightarrow> encode64 (a @ b) = encode64 a @ encode64 b"
proof (induction k arbitrary: a)
  case 0
  then show ?case by simp
next
  case (Suc k)
  then obtain x y z rest where a: "a = x # y # z # rest"
    by (cases a; cases "tl a"; cases "tl (tl a)") auto
  with Suc.prems have "length rest = 3 * k" by simp
  from Suc.IH [OF this] a show ?case by (simp add: Let_def)
qed

lemma chunks_of_encode64:
  "0 < k \<Longrightarrow> chunks_of (4 * k) (encode64 d) = map encode64 (chunks_of (3 * k) d)"
proof (induction "3 * k" d rule: chunks_of.induct)
  case (1 d)
  show ?case
  proof (cases "length d \<le> 3 * k")
    case True
    then have "length (encode64 d) \<le> 4 * k"
      by (simp add: length_encode64)
    with True show ?thesis
      by (subst chunks_of.simps, subst (2) chunks_of.simps) simp
  next
    case False
    let ?a = "take (3 * k) d" and ?b = "drop (3 * k) d"
    from False have la: "length ?a = 3 * k" by simp
    have split: "encode64 d = encode64 ?a @ encode64 ?b"
      using encode64_triples [OF la, of ?b] by simp
    from la have lea: "length (encode64 ?a) = 4 * k"
      by (simp only: length_encode64) simp
    from False have "\<not> length (encode64 d) \<le> 4 * k"
      by (simp add: length_encode64)
    moreover from split lea have "take (4 * k) (encode64 d) = encode64 ?a"
      "drop (4 * k) (encode64 d) = encode64 ?b"
      by simp_all
    moreover from "1.hyps" [OF _ "1.prems"] False "1.prems"
    have "chunks_of (4 * k) (encode64 ?b) = map encode64 (chunks_of (3 * k) ?b)"
      by simp
    ultimately show ?thesis
      using False "1.prems"
      by (subst chunks_of.simps, subst (2) chunks_of.simps) simp
  qed
qed

lemma to_network_splits_payload:
  "map base64_data (to_network f t) = map encode64 (chunks_of 48750 (ef_data f))"
  using chunks_of_encode64 [of 16250 "ef_data f"]
  by (simp add: to_network_def max_payload_size_def to_network_capped_text)


subsection \<open>Reassembly\<close>

text \<open>
  The decoder on the fragments of one frame, \<open>n\<close> of them in all, with some already in the
  buffer and the rest arriving: nothing is emitted until the last one arrives, and then
  one frame, decoded from all of them sorted by \<open>chunk\<close>.
\<close>

lemma decode_frames_collects:
  "\<forall>nf \<in> set nfs. nf_id nf = fid \<and> chunks nf = n \<Longrightarrow> nfs \<noteq> [] \<Longrightarrow>
   length (buf fid) + length nfs = n \<Longrightarrow>
     decode_frames buf nfs =
       [\<lparr>ef_data = decode64 (concat (map base64_data (sort_key chunk (rev nfs @ buf fid)))),
         ef_id = fid\<rparr>]"
proof (induction nfs arbitrary: buf)
  case Nil
  then show ?case by simp
next
  case (Cons nf rest)
  from Cons.prems(1) have nf: "nf_id nf = fid" "chunks nf = n" by simp_all
  show ?case
  proof (cases "rest = []")
    case True
    with Cons.prems(3) nf show ?thesis by (simp add: feed_def Let_def)
  next
    case False
    let ?buf = "buf(fid := nf # buf fid)"
    from False Cons.prems(3) have "length (nf # buf fid) \<noteq> n"
      by (cases rest) auto
    with nf have f: "feed buf nf = ([], ?buf)" by (simp add: feed_def Let_def)
    from Cons.prems(1) have "\<forall>nf \<in> set rest. nf_id nf = fid \<and> chunks nf = n" by simp
    moreover from Cons.prems(3) have "length (?buf fid) + length rest = n" by simp
    ultimately have "decode_frames ?buf rest =
        [\<lparr>ef_data = decode64 (concat (map base64_data (sort_key chunk (rev rest @ ?buf fid)))),
          ef_id = fid\<rparr>]"
      using False by (intro Cons.IH)
    with f show ?thesis by simp
  qed
qed

lemma round_trip_capped:
  assumes "mset nfs = mset (to_network_capped cap f t)"
  shows "decode_network_stream nfs = [\<lparr>ef_data = ef_data f, ef_id = ef_id f\<rparr>]"
proof -
  let ?sent = "to_network_capped cap f t"
  from assms have set_eq: "set nfs = set ?sent" by (rule mset_eq_setD)
  from assms have len: "length nfs = length ?sent" by (rule mset_eq_length)
  have ne: "?sent \<noteq> []"
    using chunks_of_not_Nil [of cap "encode64 (ef_data f)"] to_network_capped_length [of cap f t]
    by auto
  with len have nfs_ne: "nfs \<noteq> []" by auto
  from set_eq to_network_capped_stamp [of _ cap f t]
  have stamp: "\<forall>nf \<in> set nfs. nf_id nf = ef_id f \<and> chunks nf = length ?sent"
    by auto
  from len have "length ((\<lambda>_. []) (ef_id f) :: network_frame list) + length nfs = length ?sent"
    by simp
  from decode_frames_collects [OF stamp nfs_ne this]
  have d: "decode_network_stream nfs =
      [\<lparr>ef_data = decode64 (concat (map base64_data (sort_key chunk (rev nfs)))),
        ef_id = ef_id f\<rparr>]"
    by (simp add: decode_network_stream_def)
  have "distinct (map chunk ?sent)" "sorted (map chunk ?sent)"
    by (simp_all only: to_network_capped_chunk distinct_upt sorted_upt)
  then have "inj_on chunk (set ?sent)" "sorted (map chunk ?sent)"
    by (simp_all add: distinct_map)
  with set_eq assms have "sort_key chunk (rev nfs) = ?sent"
    by (intro sort_key_inj_key_eq) simp_all
  with d show ?thesis
    by (simp add: to_network_capped_text concat_chunks_of decode64_encode64)
qed

text \<open>
  C5. Whatever the order in which the network frames of \<open>to_network f t\<close> arrive, the
  decoder emits exactly one encoded frame, with the bytes and the id of \<open>f\<close>.
\<close>

theorem network_round_trip:
  assumes "mset nfs = mset (to_network f t)"
  shows "decode_network_stream nfs = [\<lparr>ef_data = ef_data f, ef_id = ef_id f\<rparr>]"
  using assms unfolding to_network_def by (rule round_trip_capped)

theorem network_round_trip_witness:
  "mset [\<lparr>base64_data = ''YWJj'', nf_id = \<lparr>i1 = 0, i2 = 10\<rparr>, nf_t = 5, chunk = 1, chunks = 1\<rparr>] =
     mset (to_network \<lparr>ef_data = ''abc'', ef_id = \<lparr>i1 = 0, i2 = 10\<rparr>\<rparr> 5) \<and>
   decode_network_stream
     [\<lparr>base64_data = ''YWJj'', nf_id = \<lparr>i1 = 0, i2 = 10\<rparr>, nf_t = 5, chunk = 1, chunks = 1\<rparr>] =
     [\<lparr>ef_data = ''abc'', ef_id = \<lparr>i1 = 0, i2 = 10\<rparr>\<rparr>]"
proof -
  have e: "to_network \<lparr>ef_data = ''abc'', ef_id = \<lparr>i1 = 0, i2 = 10\<rparr>\<rparr> 5 =
     [\<lparr>base64_data = ''YWJj'', nf_id = \<lparr>i1 = 0, i2 = 10\<rparr>, nf_t = 5, chunk = 1, chunks = 1\<rparr>]"
    by (simp add: network_eval)
  then have m: "mset [\<lparr>base64_data = ''YWJj'', nf_id = \<lparr>i1 = 0, i2 = 10\<rparr>, nf_t = 5,
        chunk = 1, chunks = 1\<rparr>] =
     mset (to_network \<lparr>ef_data = ''abc'', ef_id = \<lparr>i1 = 0, i2 = 10\<rparr>\<rparr> 5)"
    by simp
  from network_round_trip [OF m] m show ?thesis by simp
qed

text \<open>
  With a cap of 4 bytes the text of the same frame and two more bytes, \<open>YWJjZGU=\<close>, is two
  fragments; they are decoded to the frame when they arrive in the reverse order.
\<close>

lemma two_fragments_reversed:
  "to_network_capped 4 \<lparr>ef_data = ''abcde'', ef_id = \<lparr>i1 = 0, i2 = 10\<rparr>\<rparr> 5 =
     [\<lparr>base64_data = ''YWJj'', nf_id = \<lparr>i1 = 0, i2 = 10\<rparr>, nf_t = 5, chunk = 1, chunks = 2\<rparr>,
      \<lparr>base64_data = ''ZGU='', nf_id = \<lparr>i1 = 0, i2 = 10\<rparr>, nf_t = 5, chunk = 2, chunks = 2\<rparr>]"
  "decode_network_stream
     [\<lparr>base64_data = ''ZGU='', nf_id = \<lparr>i1 = 0, i2 = 10\<rparr>, nf_t = 5, chunk = 2, chunks = 2\<rparr>,
      \<lparr>base64_data = ''YWJj'', nf_id = \<lparr>i1 = 0, i2 = 10\<rparr>, nf_t = 5, chunk = 1, chunks = 2\<rparr>] =
     [\<lparr>ef_data = ''abcde'', ef_id = \<lparr>i1 = 0, i2 = 10\<rparr>\<rparr>]"
  by (simp_all add: network_eval b64_value_def decode_network_stream_def feed_def)


section \<open>Properties of the signals of the bot runtime\<close>






end
